theory Spec2Isabelle
  imports Main "HOL-Library.AList"
begin

section \<open>Python values the script works with\<close>

text \<open>
  The script \<^verbatim>\<open>to_webdav.py\<close> is a sequence of calls into the operating system
  (files, a child process) and into a WebDAV client. Exceptions are values here: every
  call that can raise in Python returns a \<open>result\<close>. Only subclasses of Python's
  \<^verbatim>\<open>Exception\<close> are modelled, so a handler \<^verbatim>\<open>except Exception\<close> catches every
  \<open>exn\<close>; the narrower handlers of the script select by class.
\<close>

datatype exn =
    FileNotFoundError
  | PermissionError
  | IsADirectoryError
  | NotADirectoryError
  | CalledProcessError int string
  | ValueError
  | UnicodeDecodeError
  | IndexError
  | StructError
  | WebDavException string

text \<open>\<^verbatim>\<open>CalledProcessError\<close> carries \<^verbatim>\<open>returncode\<close> and \<^verbatim>\<open>stderr\<close>; \<open>StructError\<close> is
  \<^verbatim>\<open>struct.error\<close>. Only the first four are subclasses of \<^verbatim>\<open>OSError\<close>.\<close>

fun is_OSError :: "exn \<Rightarrow> bool" where
  "is_OSError FileNotFoundError = True"
| "is_OSError PermissionError = True"
| "is_OSError IsADirectoryError = True"
| "is_OSError NotADirectoryError = True"
| "is_OSError _ = False"

datatype 'a result = Returns 'a | Raises exn

definition raised :: "'a result \<Rightarrow> bool" where
  "raised r = (case r of Raises _ \<Rightarrow> True | Returns _ \<Rightarrow> False)"

section \<open>posixpath: the string functions of os.path\<close>

text \<open>\<^verbatim>\<open>s.split('/')\<close> and \<^verbatim>\<open>'/'.join(parts)\<close>.\<close>

fun split_sep :: "string \<Rightarrow> string list" where
  "split_sep [] = [[]]"
| "split_sep (c # cs) =
     (if c = CHR ''/'' then [] # split_sep cs
      else (case split_sep cs of x # xs \<Rightarrow> (c # x) # xs | [] \<Rightarrow> [[c]]))"

fun join_sep :: "string list \<Rightarrow> string" where
  "join_sep [] = []"
| "join_sep [x] = x"
| "join_sep (x # y # ys) = x @ CHR ''/'' # join_sep (y # ys)"

text \<open>\<^verbatim>\<open>s.lstrip('/')\<close>, \<^verbatim>\<open>s.rstrip('/')\<close>, \<^verbatim>\<open>s.strip('/')\<close>.\<close>

definition lstrip_sep :: "string \<Rightarrow> string" where
  "lstrip_sep s = dropWhile (\<lambda>c. c = CHR ''/'') s"

definition rstrip_sep :: "string \<Rightarrow> string" where
  "rstrip_sep s = rev (dropWhile (\<lambda>c. c = CHR ''/'') (rev s))"

definition strip_sep :: "string \<Rightarrow> string" where
  "strip_sep s = rstrip_sep (lstrip_sep s)"

text \<open>
  \<^verbatim>\<open>basename(p)\<close> is \<^verbatim>\<open>p[p.rfind('/') + 1:]\<close>; \<^verbatim>\<open>dirname(p)\<close> takes
  \<^verbatim>\<open>head = p[:p.rfind('/') + 1]\<close> and strips its trailing separators unless it
  consists of separators only.
\<close>

definition basename :: "string \<Rightarrow> string" where
  "basename p = rev (takeWhile (\<lambda>c. c \<noteq> CHR ''/'') (rev p))"

definition dirname :: "string \<Rightarrow> string" where
  "dirname p =
     (let head = rev (dropWhile (\<lambda>c. c \<noteq> CHR ''/'') (rev p))
      in if head \<noteq> [] \<and> head \<noteq> replicate (length head) (CHR ''/'')
         then rstrip_sep head else head)"

definition isabs :: "string \<Rightarrow> bool" where
  "isabs p = (p \<noteq> [] \<and> hd p = CHR ''/'')"

text \<open>
  \<^verbatim>\<open>os.path.join(a, b)\<close>: an absolute \<open>b\<close> replaces \<open>a\<close>; otherwise \<open>b\<close> is
  appended, with a separator unless \<open>a\<close> is empty or ends with one.
\<close>

definition path_join :: "string \<Rightarrow> string \<Rightarrow> string" where
  "path_join a b =
     (if isabs b then b
      else if a = [] \<or> last a = CHR ''/'' then a @ b
      else a @ CHR ''/'' # b)"

text \<open>
  \<^verbatim>\<open>normpath\<close>: the loop over the components drops empty ones and \<^verbatim>\<open>'.'\<close>, and
  lets \<^verbatim>\<open>'..'\<close> cancel the component before it; \<open>new\<close> is Python's \<^verbatim>\<open>new_comps\<close>
  and \<open>ini\<close> says whether the path starts with a separator. \<open>initial_slashes\<close> is 0,
  1, or 2 for exactly two leading separators.
\<close>

fun norm_comps :: "bool \<Rightarrow> string list \<Rightarrow> string list \<Rightarrow> string list" where
  "norm_comps ini new [] = new"
| "norm_comps ini new (c # cs) =
     (if c = [] \<or> c = ''.'' then norm_comps ini new cs
      else if c \<noteq> ''..'' \<or> (\<not> ini \<and> new = []) \<or> (new \<noteq> [] \<and> last new = ''..'')
        then norm_comps ini (new @ [c]) cs
      else if new \<noteq> [] then norm_comps ini (butlast new) cs
      else norm_comps ini new cs)"

definition initial_slashes :: "string \<Rightarrow> nat" where
  "initial_slashes p =
     (if \<not> isabs p then 0
      else if take 2 p = ''//'' \<and> take 3 p \<noteq> ''///'' then 2 else 1)"

definition normpath :: "string \<Rightarrow> string" where
  "normpath p =
     (if p = [] then ''.''
      else let n = initial_slashes p;
               q = replicate n (CHR ''/'') @ join_sep (norm_comps (0 < n) [] (split_sep p))
           in if q = [] then ''.'' else q)"

section \<open>The local file system\<close>

text \<open>
  A file holds bytes or, once written by \<^verbatim>\<open>zipfile\<close>, an archive: the list of its
  entries (stored name, content) in the order they were added. The file of an archive
  that is still open is \<open>Unfinished\<close>: it holds the part of the archive that has reached
  the disk so far, which depends on buffering. A file has the attributes the script
  meets: whether this process may read it, and the year of its modification time
  (\<^verbatim>\<open>st_mtime\<close> in local time). A directory lists its entries in the order
  \<^verbatim>\<open>scandir\<close> reports them. There are no symbolic links and no special files, every
  directory can be listed and passed through, and every name is text that can be
  encoded.
\<close>

datatype content = Plain string | Archive "(string \<times> content) list" | Unfinished

record attrs =
  readable :: bool
  mtime_year :: int

datatype node = File attrs content | Dir "(string \<times> node) list"

text \<open>
  A location is the list of names from the root. \<open>no_unlink\<close> lists the locations at
  which the operating system refuses to delete a file (an append-only directory, a file
  held by another process): \<^verbatim>\<open>os.remove\<close> raises \<^verbatim>\<open>PermissionError\<close> there.
  \<open>no_write\<close> lists the locations that it refuses to open for writing: a file without
  write permission, a name in a directory that takes no new entries. \<open>clock_year\<close> is
  the year of the system clock, which stamps every file written.
\<close>

record filesystem =
  root :: node
  cwd :: "string list"
  no_unlink :: "string list list"
  no_write :: "string list list"
  clock_year :: int

fun is_Dir :: "node \<Rightarrow> bool" where
  "is_Dir (Dir _) = True"
| "is_Dir (File _ _) = False"

fun lookup :: "node \<Rightarrow> string list \<Rightarrow> node option" where
  "lookup t [] = Some t"
| "lookup (File _ _) (k # ks) = None"
| "lookup (Dir ch) (k # ks) = (case map_of ch k of None \<Rightarrow> None | Some t \<Rightarrow> lookup t ks)"

definition dir_at :: "node \<Rightarrow> string list \<Rightarrow> bool" where
  "dir_at t loc = (case lookup t loc of Some (Dir _) \<Rightarrow> True | _ \<Rightarrow> False)"

text \<open>\<open>put_at t loc v\<close> stores (\<open>Some\<close>) or deletes (\<open>None\<close>) the entry at a location
  whose parent directory exists.\<close>

fun put_at :: "node \<Rightarrow> string list \<Rightarrow> node option \<Rightarrow> node" where
  "put_at t [] v = t"
| "put_at (File r c) (k # ks) v = File r c"
| "put_at (Dir ch) [k] v =
     Dir (case v of None \<Rightarrow> AList.delete k ch | Some n \<Rightarrow> AList.update k n ch)"
| "put_at (Dir ch) (k # k' # ks) v =
     (case map_of ch k of
        None \<Rightarrow> Dir ch
      | Some t \<Rightarrow> Dir (AList.update k (put_at t (k' # ks) v) ch))"

text \<open>
  Path resolution as the kernel does it: component by component from the root or the
  working directory, every step taken inside an existing directory. The last component
  need not exist. The empty path resolves to nothing.
\<close>

fun walk_to :: "node \<Rightarrow> string list \<Rightarrow> string list \<Rightarrow> string list option" where
  "walk_to t cur [] = Some cur"
| "walk_to t cur (c # cs) =
     (case lookup t cur of
        Some (Dir _) \<Rightarrow>
          (if c = [] \<or> c = ''.'' then walk_to t cur cs
           else if c = ''..'' then walk_to t (butlast cur) cs
           else walk_to t (cur @ [c]) cs)
      | _ \<Rightarrow> None)"

definition resolve :: "filesystem \<Rightarrow> string \<Rightarrow> string list option" where
  "resolve fs p =
     (if p = [] then None
      else walk_to (root fs) (if isabs p then [] else cwd fs) (split_sep p))"

definition stat :: "filesystem \<Rightarrow> string \<Rightarrow> node option" where
  "stat fs p = (case resolve fs p of None \<Rightarrow> None | Some loc \<Rightarrow> lookup (root fs) loc)"

definition isfile :: "filesystem \<Rightarrow> string \<Rightarrow> bool" where
  "isfile fs p = (case stat fs p of Some (File _ _) \<Rightarrow> True | _ \<Rightarrow> False)"

definition isdir :: "filesystem \<Rightarrow> string \<Rightarrow> bool" where
  "isdir fs p = (case stat fs p of Some (Dir _) \<Rightarrow> True | _ \<Rightarrow> False)"

definition path_exists :: "filesystem \<Rightarrow> string \<Rightarrow> bool" where
  "path_exists fs p = (stat fs p \<noteq> None)"

text \<open>\<^verbatim>\<open>os.remove(p)\<close>.\<close>

definition os_remove :: "filesystem \<Rightarrow> string \<Rightarrow> filesystem result" where
  "os_remove fs p =
     (case resolve fs p of
        None \<Rightarrow> Raises FileNotFoundError
      | Some loc \<Rightarrow>
          (case lookup (root fs) loc of
             None \<Rightarrow> Raises FileNotFoundError
           | Some (Dir _) \<Rightarrow> Raises IsADirectoryError
           | Some (File _ _) \<Rightarrow>
               if loc \<in> set (no_unlink fs) then Raises PermissionError
               else Returns (fs\<lparr>root := put_at (root fs) loc None\<rparr>)))"

text \<open>\<^verbatim>\<open>os.getcwd()\<close>, \<^verbatim>\<open>abspath\<close>, \<^verbatim>\<open>commonprefix\<close> of two component lists (the
  longest common prefix; Python takes it between the smaller and the larger list, which
  is the same prefix), and \<^verbatim>\<open>relpath\<close>.\<close>

definition getcwd :: "filesystem \<Rightarrow> string" where
  "getcwd fs = CHR ''/'' # join_sep (cwd fs)"

definition abspath :: "filesystem \<Rightarrow> string \<Rightarrow> string" where
  "abspath fs p = normpath (if isabs p then p else path_join (getcwd fs) p)"

fun commonprefix :: "string list \<Rightarrow> string list \<Rightarrow> string list" where
  "commonprefix (x # xs) (y # ys) = (if x = y then x # commonprefix xs ys else [])"
| "commonprefix _ _ = []"

definition relpath :: "filesystem \<Rightarrow> string \<Rightarrow> string \<Rightarrow> string result" where
  "relpath fs p start =
     (if p = [] then Raises ValueError
      else let start_list = filter (\<lambda>x. x \<noteq> []) (split_sep (abspath fs start));
               path_list = filter (\<lambda>x. x \<noteq> []) (split_sep (abspath fs p));
               i = length (commonprefix start_list path_list);
               rel_list = replicate (length start_list - i) ''..'' @ drop i path_list
           in if rel_list = [] then Returns ''.''
              else Returns (foldl path_join (hd rel_list) (tl rel_list)))"

text \<open>
  \<^verbatim>\<open>os.walk(top)\<close>, top-down: one triple (folder, subfolders, filenames) per directory,
  then the walk of each subfolder at \<^verbatim>\<open>join(top, name)\<close>. A top that is not a directory
  yields nothing. The walk of a subfolder reads the entry's own node, which is what
  \<^verbatim>\<open>scandir(join(top, name))\<close> finds when no entry is a link.
\<close>

definition dirnames :: "(string \<times> node) list \<Rightarrow> string list" where
  "dirnames ch = map fst (filter (\<lambda>e. is_Dir (snd e)) ch)"

definition filenames :: "(string \<times> node) list \<Rightarrow> string list" where
  "filenames ch = map fst (filter (\<lambda>e. \<not> is_Dir (snd e)) ch)"

fun walk_tree :: "string \<Rightarrow> node \<Rightarrow> (string \<times> string list \<times> string list) list"
  and walk_subdirs :: "string \<Rightarrow> (string \<times> node) list \<Rightarrow> (string \<times> string list \<times> string list) list"
where
  "walk_tree folder (File r c) = []"
| "walk_tree folder (Dir ch) = (folder, dirnames ch, filenames ch) # walk_subdirs folder ch"
| "walk_subdirs folder [] = []"
| "walk_subdirs folder (e # es) =
     (if is_Dir (snd e) then walk_tree (path_join folder (fst e)) (snd e) else [])
     @ walk_subdirs folder es"

definition os_walk :: "filesystem \<Rightarrow> string \<Rightarrow> (string \<times> string list \<times> string list) list" where
  "os_walk fs folder = (case stat fs folder of None \<Rightarrow> [] | Some t \<Rightarrow> walk_tree folder t)"

section \<open>zipfile\<close>

text \<open>
  \<^verbatim>\<open>ZipFile(name, 'w')\<close> opens the file with \<^verbatim>\<open>open(name, 'w+b')\<close> and, when that is
  refused, with \<^verbatim>\<open>open(name, 'wb')\<close>: the file is created or truncated at once, and
  the call raises \<^verbatim>\<open>PermissionError\<close> where the operating system refuses to open it
  for writing. Entries are collected in the object and the archive is complete on disk
  when the \<^verbatim>\<open>with\<close> block is left, also when it is left by an exception; until then
  the file is \<open>Unfinished\<close>. The archive object keeps the location of its file and the
  entries added. A file written gets the clock's time.
\<close>

record zipfile =
  zf_location :: "string list"
  zf_entries :: "(string \<times> content) list"

definition set_content :: "int \<Rightarrow> node option \<Rightarrow> content \<Rightarrow> node" where
  "set_content year old c =
     (case old of
        Some (File a _) \<Rightarrow> File (a\<lparr>mtime_year := year\<rparr>) c
      | _ \<Rightarrow> File \<lparr>readable = True, mtime_year = year\<rparr> c)"

definition zip_open :: "filesystem \<Rightarrow> string \<Rightarrow> (zipfile \<times> filesystem) result" where
  "zip_open fs p =
     (case resolve fs p of
        None \<Rightarrow> Raises FileNotFoundError
      | Some loc \<Rightarrow>
          (case lookup (root fs) loc of
             Some (Dir _) \<Rightarrow> Raises IsADirectoryError
           | old \<Rightarrow>
               if loc \<in> set (no_write fs) then Raises PermissionError
               else Returns (\<lparr>zf_location = loc, zf_entries = []\<rparr>,
                             fs\<lparr>root := put_at (root fs) loc
                                          (Some (set_content (clock_year fs) old Unfinished))\<rparr>)))"

definition zip_close :: "filesystem \<Rightarrow> zipfile \<Rightarrow> filesystem" where
  "zip_close fs zf =
     fs\<lparr>root := put_at (root fs) (zf_location zf)
             (Some (set_content (clock_year fs) (lookup (root fs) (zf_location zf))
                      (Archive (zf_entries zf))))\<rparr>"

text \<open>
  \<^verbatim>\<open>zf.write(filename, arcname)\<close>: \<^verbatim>\<open>ZipInfo.from_file\<close> stats the file, normalises the
  stored name (\<^verbatim>\<open>normpath\<close>, leading separators removed one by one, which fails on a
  name that has nothing else), and makes the entry's header data, which raises
  \<^verbatim>\<open>ValueError\<close> for a modification time before 1980 (\<^verbatim>\<open>strict_timestamps\<close>). Then
  the file is opened for reading, the header is packed, which raises \<^verbatim>\<open>struct.error\<close>
  for a year after 2107, and the content is copied. What is copied from an
  \<open>Unfinished\<close> file is whatever part of the archive is on disk at that moment; the
  entry says only that it was read from there. The script passes no directory to
  \<^verbatim>\<open>zf.write\<close> (lines 31 and 36); its entry is the name with a separator.
\<close>

definition zip_arcname :: "string \<Rightarrow> string result" where
  "zip_arcname a = (let n = lstrip_sep (normpath a) in if n = [] then Raises IndexError else Returns n)"

definition zf_write :: "filesystem \<Rightarrow> zipfile \<Rightarrow> string \<Rightarrow> string \<Rightarrow> zipfile result" where
  "zf_write fs zf filename arcname =
     (case stat fs filename of
        None \<Rightarrow> Raises FileNotFoundError
      | Some t \<Rightarrow>
          (case zip_arcname arcname of
             Raises e \<Rightarrow> Raises e
           | Returns a \<Rightarrow>
               (case t of
                  Dir _ \<Rightarrow> Returns (zf\<lparr>zf_entries := zf_entries zf @ [(a @ ''/'', Plain [])]\<rparr>)
                | File fa c \<Rightarrow>
                    if mtime_year fa < 1980 then Raises ValueError
                    else if \<not> readable fa then Raises PermissionError
                    else if 2107 < mtime_year fa then Raises StructError
                    else Returns (zf\<lparr>zf_entries := zf_entries zf @ [(a, c)]\<rparr>))))"

section \<open>The script's world: configuration, environment, console\<close>

text \<open>The three module constants (lines 10 to 22).\<close>

record server_config =
  url :: string
  username :: string
  password :: string

record config =
  source_items :: "string list"
  webdav_servers :: "server_config list"
  encryption_password :: string

text \<open>
  Every \<^verbatim>\<open>print\<close> of the script is a message, named after what it reports and
  carrying the values it formats. An event is a message printed or a call that leaves
  the process: the command given to \<^verbatim>\<open>subprocess.run\<close>, a request of the WebDAV
  client (server, remote path, and the local file for an upload).
\<close>

datatype msg =
    Msg_step1 string
  | Msg_added_file string
  | Msg_added_dir string
  | Msg_zip_ok
  | Msg_zip_error exn
  | Msg_step2 string
  | Msg_enc_ok
  | Msg_openssl_missing
  | Msg_openssl_error
  | Msg_returncode int
  | Msg_stderr string
  | Msg_step3 string string
  | Msg_mkdir_done string
  | Msg_upload_done string
  | Msg_upload_failed exn
  | Msg_step4
  | Msg_removed_zip string
  | Msg_removed_enc string
  | Msg_cleanup_done
  | Msg_cleanup_error exn

datatype event =
    Print msg
  | Run "string list"
  | Dav_check server_config string
  | Dav_mkdir server_config string
  | Dav_upload server_config string string

text \<open>
  The world is the local disk, the state of everything remote (of any type \<open>'r\<close>) and
  the events so far. What the child process and the WebDAV servers do is not the
  script's: the environment gives it, as functions of the state they find. A child
  process either cannot be started or exits with a return code and what it wrote to
  stdout and stderr, each decoded as text (\<open>None\<close> when the bytes are not valid in the
  locale's encoding), and may have changed the disk.
\<close>

record 'r world =
  disk :: filesystem
  remote :: 'r
  events :: "event list"

datatype run_outcome = Spawn_failed exn | Exited int "string option" "string option"

record 'r env =
  now_stamp :: string
  now_month :: string
  subprocess :: "string list \<Rightarrow> filesystem \<Rightarrow> run_outcome \<times> filesystem"
  dav_check :: "server_config \<Rightarrow> string \<Rightarrow> 'r \<Rightarrow> bool result \<times> 'r"
  dav_mkdir :: "server_config \<Rightarrow> string \<Rightarrow> 'r \<Rightarrow> unit result \<times> 'r"
  dav_upload :: "server_config \<Rightarrow> string \<Rightarrow> string \<Rightarrow> filesystem \<Rightarrow> 'r \<Rightarrow> unit result \<times> 'r"

definition emit :: "event list \<Rightarrow> 'r world \<Rightarrow> 'r world" where
  "emit es w = w\<lparr>events := events w @ es\<rparr>"

section \<open>create\_unencrypted\_zip (lines 25 to 45)\<close>

text \<open>The inner loop over \<open>filenames\<close> (lines 36 to 39), the loop over the triples of
  \<^verbatim>\<open>os.walk\<close> (line 35) and the loop over the source items (lines 30 to 40). Each
  returns the exception that ended it, if any, with the archive object as it then is.\<close>

fun write_files :: "filesystem \<Rightarrow> string \<Rightarrow> string \<Rightarrow> string list \<Rightarrow> zipfile \<Rightarrow> exn option \<times> zipfile" where
  "write_files fs item foldername [] zf = (None, zf)"
| "write_files fs item foldername (filename # rest) zf =
     (let file_path = path_join foldername filename
      in case relpath fs file_path (dirname item) of
           Raises e \<Rightarrow> (Some e, zf)
         | Returns arcname \<Rightarrow>
             (case zf_write fs zf file_path arcname of
                Raises e \<Rightarrow> (Some e, zf)
              | Returns zf' \<Rightarrow> write_files fs item foldername rest zf'))"

fun write_walk :: "filesystem \<Rightarrow> string \<Rightarrow> (string \<times> string list \<times> string list) list \<Rightarrow> zipfile \<Rightarrow> exn option \<times> zipfile" where
  "write_walk fs item [] zf = (None, zf)"
| "write_walk fs item ((foldername, subfolders, names) # rest) zf =
     (case write_files fs item foldername names zf of
        (Some e, zf') \<Rightarrow> (Some e, zf')
      | (None, zf') \<Rightarrow> write_walk fs item rest zf')"

fun add_items :: "filesystem \<Rightarrow> string list \<Rightarrow> zipfile \<Rightarrow> event list \<Rightarrow> exn option \<times> zipfile \<times> event list" where
  "add_items fs [] zf out = (None, zf, out)"
| "add_items fs (item # items) zf out =
     (if isfile fs item then
        (case zf_write fs zf item (basename item) of
           Raises e \<Rightarrow> (Some e, zf, out)
         | Returns zf' \<Rightarrow> add_items fs items zf' (out @ [Print (Msg_added_file item)]))
      else if isdir fs item then
        (case write_walk fs item (os_walk fs item) zf of
           (Some e, zf') \<Rightarrow> (Some e, zf', out)
         | (None, zf') \<Rightarrow> add_items fs items zf' (out @ [Print (Msg_added_dir item)]))
      else add_items fs items zf out)"

text \<open>The handler \<^verbatim>\<open>except Exception\<close> catches whatever the block raises, so the
  function returns a truth value on every path.\<close>

definition create_unencrypted_zip :: "string list \<Rightarrow> string \<Rightarrow> 'r world \<Rightarrow> bool \<times> 'r world" where
  "create_unencrypted_zip items archive_name w =
     (let w1 = emit [Print (Msg_step1 archive_name)] w
      in case zip_open (disk w1) archive_name of
           Raises e \<Rightarrow> (False, emit [Print (Msg_zip_error e)] w1)
         | Returns (zf, fs1) \<Rightarrow>
             (case add_items fs1 items zf [] of
                (None, zf', out) \<Rightarrow>
                  (True, emit (out @ [Print Msg_zip_ok]) (w1\<lparr>disk := zip_close fs1 zf'\<rparr>))
              | (Some e, zf', out) \<Rightarrow>
                  (False, emit (out @ [Print (Msg_zip_error e)]) (w1\<lparr>disk := zip_close fs1 zf'\<rparr>))))"

section \<open>encrypt\_with\_openssl (lines 47 to 69)\<close>

text \<open>\<^verbatim>\<open>subprocess.run(command, check=True, capture_output=True, text=True)\<close>: a
  process that cannot be started raises what the operating system reports. The output
  of the child is decoded when it has been read, before the return code is looked at,
  and bytes that do not decode raise \<^verbatim>\<open>UnicodeDecodeError\<close>. Then a return code other
  than 0 raises \<^verbatim>\<open>CalledProcessError\<close>.\<close>

definition run_checked :: "'r env \<Rightarrow> string list \<Rightarrow> 'r world \<Rightarrow> unit result \<times> 'r world" where
  "run_checked en command w =
     (case subprocess en command (disk w) of
        (Spawn_failed e, fs) \<Rightarrow> (Raises e, emit [Run command] (w\<lparr>disk := fs\<rparr>))
      | (Exited rc sout serr, fs) \<Rightarrow>
          (case (sout, serr) of
             (Some out, Some err) \<Rightarrow>
               if rc \<noteq> 0 then Raises (CalledProcessError rc err) else Returns ()
           | _ \<Rightarrow> Raises UnicodeDecodeError,
           emit [Run command] (w\<lparr>disk := fs\<rparr>)))"

text \<open>The command of lines 51 to 56.\<close>

definition openssl_command :: "string \<Rightarrow> string \<Rightarrow> string \<Rightarrow> string list" where
  "openssl_command input_file output_file pw =
     [''openssl'', ''enc'', ''-aes-256-cbc'', ''-salt'', ''-pbkdf2'',
      ''-in'', input_file, ''-out'', output_file, ''-k'', pw]"

definition encrypt_with_openssl :: "'r env \<Rightarrow> string \<Rightarrow> string \<Rightarrow> string \<Rightarrow> 'r world \<Rightarrow> bool result \<times> 'r world" where
  "encrypt_with_openssl en input_file output_file pw w =
     (let w1 = emit [Print (Msg_step2 output_file)] w;
          command = openssl_command input_file output_file pw
      in case run_checked en command w1 of
           (Returns _, w2) \<Rightarrow> (Returns True, emit [Print Msg_enc_ok] w2)
         | (Raises FileNotFoundError, w2) \<Rightarrow> (Returns False, emit [Print Msg_openssl_missing] w2)
         | (Raises (CalledProcessError rc serr), w2) \<Rightarrow>
             (Returns False,
              emit [Print Msg_openssl_error, Print (Msg_returncode rc), Print (Msg_stderr serr)] w2)
         | (Raises e, w2) \<Rightarrow> (Raises e, w2))"

section \<open>upload\_to\_webdav (lines 71 to 91)\<close>

text \<open>Building the client (lines 73 to 78) makes no request. Lines 84 to 86: the remote
  directory is created when the check says it is not there.\<close>

definition ensure_directory :: "'r env \<Rightarrow> server_config \<Rightarrow> string \<Rightarrow> 'r world \<Rightarrow> unit result \<times> 'r world" where
  "ensure_directory en server full_remote_dir w =
     (case dav_check en server full_remote_dir (remote w) of
        (Raises e, r1) \<Rightarrow> (Raises e, emit [Dav_check server full_remote_dir] (w\<lparr>remote := r1\<rparr>))
      | (Returns True, r1) \<Rightarrow> (Returns (), emit [Dav_check server full_remote_dir] (w\<lparr>remote := r1\<rparr>))
      | (Returns False, r1) \<Rightarrow>
          (case dav_mkdir en server full_remote_dir r1 of
             (Raises e, r2) \<Rightarrow>
               (Raises e,
                emit [Dav_check server full_remote_dir, Dav_mkdir server full_remote_dir]
                  (w\<lparr>remote := r2\<rparr>))
           | (Returns _, r2) \<Rightarrow>
               (Returns (),
                emit [Dav_check server full_remote_dir, Dav_mkdir server full_remote_dir,
                      Print (Msg_mkdir_done full_remote_dir)]
                  (w\<lparr>remote := r2\<rparr>))))"

definition upload_to_webdav :: "'r env \<Rightarrow> server_config \<Rightarrow> string \<Rightarrow> string \<Rightarrow> 'r world \<Rightarrow> 'r world" where
  "upload_to_webdav en server local_file remote_dir w =
     (let full_remote_dir = ''/'' @ strip_sep remote_dir @ ''/'';
          remote_path = path_join full_remote_dir (basename local_file);
          w1 = emit [Print (Msg_step3 local_file (url server))] w
      in case ensure_directory en server full_remote_dir w1 of
           (Raises e, w2) \<Rightarrow> emit [Print (Msg_upload_failed e)] w2
         | (Returns _, w2) \<Rightarrow>
             (case dav_upload en server remote_path local_file (disk w2) (remote w2) of
                (Raises e, r3) \<Rightarrow>
                  emit [Dav_upload server remote_path local_file, Print (Msg_upload_failed e)]
                    (w2\<lparr>remote := r3\<rparr>)
              | (Returns _, r3) \<Rightarrow>
                  emit [Dav_upload server remote_path local_file, Print (Msg_upload_done remote_path)]
                    (w2\<lparr>remote := r3\<rparr>)))"

section \<open>main (lines 93 to 126) and the process\<close>

text \<open>The loop of lines 112 and 113.\<close>

fun upload_all :: "'r env \<Rightarrow> server_config list \<Rightarrow> string \<Rightarrow> string \<Rightarrow> 'r world \<Rightarrow> 'r world" where
  "upload_all en [] local_file remote_dir w = w"
| "upload_all en (server # servers) local_file remote_dir w =
     upload_all en servers local_file remote_dir (upload_to_webdav en server local_file remote_dir w)"

text \<open>Lines 116 to 126: one \<^verbatim>\<open>try\<close> around both deletions, with the handler
  \<^verbatim>\<open>except OSError\<close>.\<close>

definition cleanup :: "string \<Rightarrow> string \<Rightarrow> 'r world \<Rightarrow> unit result \<times> 'r world" where
  "cleanup zip_filename encrypted_filename w =
     (let w1 = emit [Print Msg_step4] w;
          handler = (\<lambda>e wh. if is_OSError e then (Returns (), emit [Print (Msg_cleanup_error e)] wh)
                             else (Raises e, wh));
          second = (\<lambda>w2.
            if path_exists (disk w2) encrypted_filename then
              (case os_remove (disk w2) encrypted_filename of
                 Raises e \<Rightarrow> handler e w2
               | Returns fs \<Rightarrow>
                   (Returns (),
                    emit [Print (Msg_removed_enc encrypted_filename), Print Msg_cleanup_done]
                      (w2\<lparr>disk := fs\<rparr>)))
            else (Returns (), emit [Print Msg_cleanup_done] w2))
      in if path_exists (disk w1) zip_filename then
           (case os_remove (disk w1) zip_filename of
              Raises e \<Rightarrow> handler e w1
            | Returns fs \<Rightarrow> second (emit [Print (Msg_removed_zip zip_filename)] (w1\<lparr>disk := fs\<rparr>)))
         else second w1)"

text \<open>The file names of lines 95 to 100, from the clock, and \<open>main\<close>.\<close>

definition zip_filename :: "'r env \<Rightarrow> string" where
  "zip_filename en = ''backup_'' @ now_stamp en @ ''.zip''"

definition encrypted_filename :: "'r env \<Rightarrow> string" where
  "encrypted_filename en = zip_filename en @ ''.enc''"

definition main :: "config \<Rightarrow> 'r env \<Rightarrow> 'r world \<Rightarrow> unit result \<times> 'r world" where
  "main cfg en w =
     (let remote_dir_name = now_month en
      in case create_unencrypted_zip (source_items cfg) (zip_filename en) w of
           (False, w1) \<Rightarrow> (Returns (), w1)
         | (True, w1) \<Rightarrow>
             (case encrypt_with_openssl en (zip_filename en) (encrypted_filename en)
                     (encryption_password cfg) w1 of
                (Raises e, w2) \<Rightarrow> (Raises e, w2)
              | (Returns False, w2) \<Rightarrow>
                  (if path_exists (disk w2) (zip_filename en) then
                     (case os_remove (disk w2) (zip_filename en) of
                        Raises e \<Rightarrow> (Raises e, w2)
                      | Returns fs \<Rightarrow> (Returns (), w2\<lparr>disk := fs\<rparr>))
                   else (Returns (), w2))
              | (Returns True, w2) \<Rightarrow>
                  cleanup (zip_filename en) (encrypted_filename en)
                    (upload_all en (webdav_servers cfg) (encrypted_filename en) remote_dir_name w2)))"


section \<open>What a run shows\<close>

text \<open>The requests made of the WebDAV servers, and the servers asked whether the
  remote directory exists: each call of \<open>upload_to_webdav\<close> starts with that request.\<close>

fun is_dav :: "event \<Rightarrow> bool" where
  "is_dav (Dav_check _ _) = True"
| "is_dav (Dav_mkdir _ _) = True"
| "is_dav (Dav_upload _ _ _) = True"
| "is_dav _ = False"

fun checked_servers :: "event list \<Rightarrow> server_config list" where
  "checked_servers [] = []"
| "checked_servers (Dav_check s d # es) = s # checked_servers es"
| "checked_servers (_ # es) = checked_servers es"

section \<open>Real directory trees and the entries the design asks for\<close>

text \<open>
  A name of a real directory entry is not empty, has no separator and is neither
  \<^verbatim>\<open>.\<close> nor \<^verbatim>\<open>..\<close>; a directory has no name twice. The working directory is a list of
  such names.
\<close>

definition valid_name :: "string \<Rightarrow> bool" where
  "valid_name k = (k \<noteq> [] \<and> CHR ''/'' \<notin> set k \<and> k \<noteq> ''.'' \<and> k \<noteq> ''..'')"

fun wf_node :: "node \<Rightarrow> bool" and wf_entries :: "(string \<times> node) list \<Rightarrow> bool" where
  "wf_node (File r c) = True"
| "wf_node (Dir ch) = (distinct (map fst ch) \<and> wf_entries ch)"
| "wf_entries [] = True"
| "wf_entries (e # es) = (valid_name (fst e) \<and> wf_node (snd e) \<and> wf_entries es)"

definition wf_fs :: "filesystem \<Rightarrow> bool" where
  "wf_fs fs = (wf_node (root fs) \<and> list_all valid_name (cwd fs))"

text \<open>
  A file can be stored in an archive when it may be read, ZIP can hold the year of its
  modification time (1980 to 2107), and it is not the archive that is being written.
  A tree can be stored when every file of it can.
\<close>

definition storable :: "attrs \<Rightarrow> content \<Rightarrow> bool" where
  "storable a c = (readable a \<and> 1980 \<le> mtime_year a \<and> mtime_year a \<le> 2107 \<and> c \<noteq> Unfinished)"

fun all_storable :: "node \<Rightarrow> bool" and entries_storable :: "(string \<times> node) list \<Rightarrow> bool" where
  "all_storable (File a c) = storable a c"
| "all_storable (Dir ch) = entries_storable ch"
| "entries_storable [] = True"
| "entries_storable (e # es) = (all_storable (snd e) \<and> entries_storable es)"

text \<open>
  The files of a directory tree, each with its path relative to the directory as a list
  of names: the directory's own files first, then the files of each subdirectory, in
  listing order.
\<close>

fun own_files :: "(string \<times> node) list \<Rightarrow> (string list \<times> content) list" where
  "own_files [] = []"
| "own_files ((k, File r c) # es) = ([k], c) # own_files es"
| "own_files ((k, Dir ch) # es) = own_files es"

fun tree_files :: "node \<Rightarrow> (string list \<times> content) list"
  and subdir_files :: "(string \<times> node) list \<Rightarrow> (string list \<times> content) list"
where
  "tree_files (File r c) = []"
| "tree_files (Dir ch) = own_files ch @ subdir_files ch"
| "subdir_files [] = []"
| "subdir_files (e # es) =
     (if is_Dir (snd e) then map (\<lambda>(rel, c). (fst e # rel, c)) (tree_files (snd e)) else [])
     @ subdir_files es"

text \<open>
  The entries section 4.1 of the design asks for, per source item: a regular file under
  its base name; every file of a directory tree under its path relative to the parent
  of the directory, which starts with the directory's own name, the last name of its
  location; nothing for an item that is neither.
\<close>

definition own_name :: "filesystem \<Rightarrow> string \<Rightarrow> string" where
  "own_name fs item =
     (case resolve fs item of Some loc \<Rightarrow> if loc = [] then [] else last loc | None \<Rightarrow> [])"

definition spec_entries :: "filesystem \<Rightarrow> string \<Rightarrow> (string \<times> content) list" where
  "spec_entries fs item =
     (case stat fs item of
        None \<Rightarrow> []
      | Some (File r c) \<Rightarrow> [(basename item, c)]
      | Some (Dir ch) \<Rightarrow>
          map (\<lambda>(rel, c). (join_sep (own_name fs item # rel), c)) (tree_files (Dir ch)))"

section \<open>An example environment\<close>

text \<open>
  A small disk, a child process with a given outcome that writes its output file when it
  exits with 0, and WebDAV servers that keep the directories made on them; the servers
  whose address is listed as down refuse every request. The remote state is the list of
  (server address, directory) pairs that exist.
\<close>

definition file_attrs :: "bool \<Rightarrow> attrs" where
  "file_attrs r = \<lparr>readable = r, mtime_year = 2023\<rparr>"

definition example_disk :: filesystem where
  "example_disk =
     \<lparr>root = Dir [(''home'', Dir [(''u'', Dir [
         (''data'', Dir [(''a.txt'', File (file_attrs True) (Plain ''hello'')),
                         (''sub'', Dir [(''b.txt'', File (file_attrs True) (Plain ''bye''))])]),
         (''f.log'', File (file_attrs True) (Plain ''log'')),
         (''secret'', File (file_attrs False) (Plain ''key''))])])],
      cwd = [''home'', ''u''],
      no_unlink = [], no_write = [], clock_year = 2024\<rparr>"

definition example_subprocess :: "run_outcome \<Rightarrow> string list \<Rightarrow> filesystem \<Rightarrow> run_outcome \<times> filesystem" where
  "example_subprocess oc command fs =
     (case oc of
        Exited rc sout serr \<Rightarrow>
          (if rc = 0 then
             (case resolve fs (command ! 8) of
                Some loc \<Rightarrow>
                  (oc, fs\<lparr>root := put_at (root fs) loc
                                  (Some (set_content (clock_year fs) None (Plain ''Salted__'')))\<rparr>)
              | None \<Rightarrow> (oc, fs))
           else (oc, fs))
      | Spawn_failed e \<Rightarrow> (oc, fs))"

definition example_check :: "string list \<Rightarrow> server_config \<Rightarrow> string \<Rightarrow> (string \<times> string) list \<Rightarrow> bool result \<times> (string \<times> string) list" where
  "example_check down s d r =
     (if url s \<in> set down then (Raises (WebDavException ''no connection''), r)
      else (Returns ((url s, d) \<in> set r), r))"

definition example_mkdir :: "string list \<Rightarrow> server_config \<Rightarrow> string \<Rightarrow> (string \<times> string) list \<Rightarrow> unit result \<times> (string \<times> string) list" where
  "example_mkdir down s d r =
     (if url s \<in> set down then (Raises (WebDavException ''no connection''), r)
      else if (url s, d) \<in> set r then (Raises (WebDavException ''405 Method Not Allowed''), r)
      else (Returns (), (url s, d) # r))"

definition example_upload :: "string list \<Rightarrow> server_config \<Rightarrow> string \<Rightarrow> string \<Rightarrow> filesystem \<Rightarrow> (string \<times> string) list \<Rightarrow> unit result \<times> (string \<times> string) list" where
  "example_upload down s remote_path local_file fs r =
     (if url s \<in> set down then (Raises (WebDavException ''no connection''), r)
      else if isfile fs local_file then (Returns (), r)
      else (Raises (WebDavException ''local file not found''), r))"

definition example_env :: "run_outcome \<Rightarrow> string list \<Rightarrow> (string \<times> string) list env" where
  "example_env oc down =
     \<lparr>now_stamp = ''20240101_120000'', now_month = ''2024-01'',
      subprocess = example_subprocess oc,
      dav_check = example_check down, dav_mkdir = example_mkdir down,
      dav_upload = example_upload down\<rparr>"

definition server1 :: server_config where
  "server1 = \<lparr>url = ''https://one.example/dav/'', username = ''u1'', password = ''p1''\<rparr>"

definition server2 :: server_config where
  "server2 = \<lparr>url = ''https://two.example/dav/'', username = ''u2'', password = ''p2''\<rparr>"

definition example_config :: "string list \<Rightarrow> config" where
  "example_config items =
     \<lparr>source_items = items, webdav_servers = [server1, server2],
      encryption_password = ''secret''\<rparr>"

definition example_world :: "filesystem \<Rightarrow> (string \<times> string) list world" where
  "example_world fs = \<lparr>disk = fs, remote = [], events = []\<rparr>"

section \<open>Events\<close>

lemma emit_events [simp]: "events (emit es w) = events w @ es"
  and emit_disk [simp]: "disk (emit es w) = disk w"
  and emit_remote [simp]: "remote (emit es w) = remote w"
  by (simp_all add: emit_def)

lemma emit_emit [simp]: "emit es (emit ds w) = emit (ds @ es) w"
  by (simp add: emit_def)

lemma emit_disk_update [simp]: "emit es (w\<lparr>disk := fs\<rparr>) = (emit es w)\<lparr>disk := fs\<rparr>"
  by (simp add: emit_def)

lemma emit_eq_iff [simp]: "(emit es w = emit ds w) = (es = ds)"
  by (auto simp: emit_def dest: arg_cong [where f = events])

lemma emit_disk_eq_iff [simp]: "((emit es w)\<lparr>disk := fs\<rparr> = (emit ds w)\<lparr>disk := fs\<rparr>) = (es = ds)"
  by (auto simp: emit_def dest: arg_cong [where f = events])

section \<open>The two failures of the encryption step\<close>

text \<open>
  Claim C6, as the script has it. \<open>encrypt_with_openssl\<close> reports that the tool is
  unavailable (it prints the message that \<^verbatim>\<open>openssl\<close> was not found and returns
  \<open>False\<close>) exactly when the process could not be started because the binary is
  missing, and reports a failed cipher (it prints the return code and the diagnostic
  output of the process and returns \<open>False\<close>) exactly when the process ran, its output
  could be decoded as text, and it exited with a return code other than 0. In both cases
  it returns \<open>False\<close> and raises nothing, and it returns \<open>False\<close> in no other case. When
  the output of the process cannot be decoded, \<^verbatim>\<open>UnicodeDecodeError\<close> leaves the
  function, whatever the return code. Starting a process never raises
  \<^verbatim>\<open>CalledProcessError\<close>; that is the second assumption.
\<close>

theorem encrypt_failure_modes:
  assumes run: "subprocess en (openssl_command inp outp pw) (disk w) = (oc, fs)"
      and spawn: "\<forall>rc s. oc \<noteq> Spawn_failed (CalledProcessError rc s)"
  shows "(oc = Spawn_failed FileNotFoundError \<longleftrightarrow>
            encrypt_with_openssl en inp outp pw w =
              (Returns False,
               emit [Print (Msg_step2 outp), Run (openssl_command inp outp pw),
                     Print Msg_openssl_missing] (w\<lparr>disk := fs\<rparr>)))
       \<and> ((\<exists>rc sout serr. oc = Exited rc (Some sout) (Some serr) \<and> rc \<noteq> 0) \<longleftrightarrow>
            (\<exists>rc serr. encrypt_with_openssl en inp outp pw w =
              (Returns False,
               emit [Print (Msg_step2 outp), Run (openssl_command inp outp pw),
                     Print Msg_openssl_error, Print (Msg_returncode rc),
                     Print (Msg_stderr serr)] (w\<lparr>disk := fs\<rparr>))))
       \<and> (\<forall>rc sout serr. oc = Exited rc (Some sout) (Some serr) \<and> rc \<noteq> 0 \<longrightarrow>
            encrypt_with_openssl en inp outp pw w =
              (Returns False,
               emit [Print (Msg_step2 outp), Run (openssl_command inp outp pw),
                     Print Msg_openssl_error, Print (Msg_returncode rc),
                     Print (Msg_stderr serr)] (w\<lparr>disk := fs\<rparr>)))
       \<and> (fst (encrypt_with_openssl en inp outp pw w) = Returns False \<longleftrightarrow>
            oc = Spawn_failed FileNotFoundError
            \<or> (\<exists>rc sout serr. oc = Exited rc (Some sout) (Some serr) \<and> rc \<noteq> 0))
       \<and> (\<forall>rc sout serr. oc = Exited rc sout serr \<and> (sout = None \<or> serr = None) \<longrightarrow>
            encrypt_with_openssl en inp outp pw w =
              (Raises UnicodeDecodeError,
               emit [Print (Msg_step2 outp), Run (openssl_command inp outp pw)] (w\<lparr>disk := fs\<rparr>)))"
proof (cases oc)
  case (Spawn_failed e)
  with spawn have ne: "\<And>rc s. e \<noteq> CalledProcessError rc s" by auto
  show ?thesis
    using run Spawn_failed ne
    by (cases e) (auto simp: encrypt_with_openssl_def run_checked_def Let_def)
next
  case (Exited rc sout serr)
  show ?thesis
    using run Exited
    by (cases sout; cases serr) (simp_all add: encrypt_with_openssl_def run_checked_def Let_def)
qed

theorem encrypt_failure_modes_witness:
  "subprocess (example_env (Exited 2 (Some []) (Some ''bad decrypt'')) []) (openssl_command ''a.zip'' ''a.zip.enc'' ''pw'')
     (disk (example_world example_disk)) = (Exited 2 (Some []) (Some ''bad decrypt''), example_disk)
   \<and> encrypt_with_openssl (example_env (Exited 2 (Some []) (Some ''bad decrypt'')) []) ''a.zip'' ''a.zip.enc'' ''pw''
       (example_world example_disk) =
      (Returns False,
       emit [Print (Msg_step2 ''a.zip.enc''), Run (openssl_command ''a.zip'' ''a.zip.enc'' ''pw''),
             Print Msg_openssl_error, Print (Msg_returncode 2), Print (Msg_stderr ''bad decrypt'')]
         (example_world example_disk))
   \<and> subprocess (example_env (Exited 3 None (Some [])) []) (openssl_command ''a.zip'' ''a.zip.enc'' ''pw'')
       (disk (example_world example_disk)) = (Exited 3 None (Some []), example_disk)
   \<and> encrypt_with_openssl (example_env (Exited 3 None (Some [])) []) ''a.zip'' ''a.zip.enc'' ''pw''
       (example_world example_disk) =
      (Raises UnicodeDecodeError,
       emit [Print (Msg_step2 ''a.zip.enc''), Run (openssl_command ''a.zip'' ''a.zip.enc'' ''pw'')]
         (example_world example_disk))"
proof -
  have run: "subprocess (example_env (Exited 2 (Some []) (Some ''bad decrypt'')) []) (openssl_command ''a.zip'' ''a.zip.enc'' ''pw'')
     (disk (example_world example_disk)) = (Exited 2 (Some []) (Some ''bad decrypt''), example_disk)"
    by (simp add: example_env_def example_subprocess_def example_world_def)
  have spawn: "\<forall>rc s. Exited 2 (Some []) (Some ''bad decrypt'') \<noteq> Spawn_failed (CalledProcessError rc s)"
    by simp
  have run': "subprocess (example_env (Exited 3 None (Some [])) []) (openssl_command ''a.zip'' ''a.zip.enc'' ''pw'')
     (disk (example_world example_disk)) = (Exited 3 None (Some []), example_disk)"
    by (simp add: example_env_def example_subprocess_def example_world_def)
  have spawn': "\<forall>rc s. Exited 3 None (Some []) \<noteq> Spawn_failed (CalledProcessError rc s)"
    by simp
  show ?thesis
    using encrypt_failure_modes [OF run spawn] run encrypt_failure_modes [OF run' spawn'] run'
    by (simp add: example_world_def)
qed

text \<open>
  Claim C6 as stated has a failed cipher reported whenever the cipher runs and fails,
  and never an exception. Here \<^verbatim>\<open>openssl\<close> runs and exits with return code 1, and what
  it wrote to stderr is not valid text in the locale's encoding: the call raises
  \<^verbatim>\<open>UnicodeDecodeError\<close>, which neither handler catches, and nothing is reported.
\<close>

theorem undecodable_output_raises:
  "subprocess (example_env (Exited 1 (Some []) None) []) (openssl_command ''a.zip'' ''a.zip.enc'' ''pw'')
     (disk (example_world example_disk)) = (Exited 1 (Some []) None, example_disk)
   \<and> encrypt_with_openssl (example_env (Exited 1 (Some []) None) []) ''a.zip'' ''a.zip.enc'' ''pw''
       (example_world example_disk) =
      (Raises UnicodeDecodeError,
       emit [Print (Msg_step2 ''a.zip.enc''), Run (openssl_command ''a.zip'' ''a.zip.enc'' ''pw'')]
         (example_world example_disk))"
  by (simp add: encrypt_with_openssl_def run_checked_def example_env_def example_subprocess_def
      example_world_def Let_def)

section \<open>Events of the stages\<close>


lemma checked_servers_no_dav: "filter is_dav es = [] \<Longrightarrow> checked_servers es = []"
  by (induction es rule: checked_servers.induct) (simp_all split: if_splits)

lemma add_items_events:
  "add_items fs items zf out = (r, zf', out') \<Longrightarrow> \<exists>new. out' = out @ new \<and> filter is_dav new = []"
proof (induction items arbitrary: zf out)
  case Nil
  then show ?case by simp
next
  case (Cons item items)
  show ?case
  proof (cases "isfile fs item")
    case True
    show ?thesis
    proof (cases "zf_write fs zf item (basename item)")
      case (Returns zf1)
      with Cons.prems True
      have "add_items fs items zf1 (out @ [Print (Msg_added_file item)]) = (r, zf', out')"
        by simp
      from Cons.IH [OF this] show ?thesis by auto
    next
      case (Raises e)
      with Cons.prems True show ?thesis by simp
    qed
  next
    case False
    show ?thesis
    proof (cases "isdir fs item")
      case True
      obtain r1 zf1 where ww: "write_walk fs item (os_walk fs item) zf = (r1, zf1)"
        by (cases "write_walk fs item (os_walk fs item) zf")
      show ?thesis
      proof (cases r1)
        case None
        with Cons.prems False True ww
        have "add_items fs items zf1 (out @ [Print (Msg_added_dir item)]) = (r, zf', out')"
          by simp
        from Cons.IH [OF this] show ?thesis by auto
      next
        case (Some e)
        with Cons.prems False True ww show ?thesis by simp
      qed
    next
      case nd: False
      with Cons.prems False have "add_items fs items zf out = (r, zf', out')" by simp
      from Cons.IH [OF this] show ?thesis .
    qed
  qed
qed

lemma create_events:
  "create_unencrypted_zip items name w = (ok, w') \<Longrightarrow>
     \<exists>new. events w' = events w @ new \<and> filter is_dav new = [] \<and> remote w' = remote w"
proof -
  assume c: "create_unencrypted_zip items name w = (ok, w')"
  show ?thesis
  proof (cases "zip_open (disk w) name")
    case (Raises e)
    with c show ?thesis by (auto simp: create_unencrypted_zip_def Let_def)
  next
    case (Returns p)
    obtain zf fs1 where p: "p = (zf, fs1)" by (cases p)
    obtain r zf' out where a: "add_items fs1 items zf [] = (r, zf', out)"
      by (cases "add_items fs1 items zf []")
    from add_items_events [OF a] have nd: "filter is_dav out = []" by simp
    show ?thesis
      using c Returns p a nd
      by (cases r) (auto simp: create_unencrypted_zip_def Let_def)
  qed
qed

lemma encrypt_events:
  "encrypt_with_openssl en i outp pw w = (r, w') \<Longrightarrow>
     \<exists>new. events w' = events w @ new \<and> filter is_dav new = [] \<and> remote w' = remote w"
  by (auto simp: encrypt_with_openssl_def run_checked_def Let_def
           split: prod.splits run_outcome.splits result.splits exn.splits if_splits)



lemma os_remove_raises: "os_remove fs p = Raises e \<Longrightarrow> is_OSError e"
  by (auto simp: os_remove_def split: option.splits node.splits if_splits)



lemma main_zip_failed:
  assumes "fst (create_unencrypted_zip (source_items cfg) (zip_filename en) w) = False"
  shows "main cfg en w = (Returns (), snd (create_unencrypted_zip (source_items cfg) (zip_filename en) w))"
proof -
  obtain ok w1 where c: "create_unencrypted_zip (source_items cfg) (zip_filename en) w = (ok, w1)"
    by (cases "create_unencrypted_zip (source_items cfg) (zip_filename en) w")
  with assms show ?thesis by (simp add: main_def Let_def)
qed

lemma main_success:
  assumes "fst (create_unencrypted_zip (source_items cfg) (zip_filename en) w) = True"
      and "fst (encrypt_with_openssl en (zip_filename en) (encrypted_filename en) (encryption_password cfg)
          (snd (create_unencrypted_zip (source_items cfg) (zip_filename en) w))) = Returns True"
  shows "main cfg en w =
     cleanup (zip_filename en) (encrypted_filename en)
       (upload_all en (webdav_servers cfg) (encrypted_filename en) (now_month en)
         (snd (encrypt_with_openssl en (zip_filename en) (encrypted_filename en) (encryption_password cfg)
            (snd (create_unencrypted_zip (source_items cfg) (zip_filename en) w)))))"
proof -
  obtain ok w1 where c: "create_unencrypted_zip (source_items cfg) (zip_filename en) w = (ok, w1)"
    by (cases "create_unencrypted_zip (source_items cfg) (zip_filename en) w")
  obtain r w2 where e: "encrypt_with_openssl en (zip_filename en) (encrypted_filename en)
      (encryption_password cfg) w1 = (r, w2)"
    by (cases "encrypt_with_openssl en (zip_filename en) (encrypted_filename en) (encryption_password cfg) w1")
  from assms c e show ?thesis by (simp add: main_def Let_def)
qed

section \<open>Upload failures\<close>








section \<open>Facts about the directory tree\<close>

lemma lookup_Dir_Cons:
  "lookup (Dir ch) (k # ks) = (case map_of ch k of None \<Rightarrow> None | Some t \<Rightarrow> lookup t ks)"
  by simp

lemma lookup_append:
  "lookup t (xs @ ys) = (case lookup t xs of None \<Rightarrow> None | Some n \<Rightarrow> lookup n ys)"
proof (induction t xs rule: lookup.induct)
  case (1 t)
  then show ?case by simp
next
  case (2 r c k ks)
  then show ?case by simp
next
  case (3 ch k ks)
  then show ?case by (simp split: option.splits)
qed

lemma lookup_File: "lookup (File r c) ks = (if ks = [] then Some (File r c) else None)"
  by (cases ks) simp_all

lemma lookup_snoc_parent:
  assumes "lookup t (xs @ [k]) = Some n"
  shows "dir_at t xs"
proof -
  from assms obtain m where m: "lookup t xs = Some m" "lookup m [k] = Some n"
    by (auto simp: lookup_append split: option.splits)
  then show ?thesis by (cases m) (simp_all add: dir_at_def)
qed

lemma lookup_parent:
  "lookup t loc = Some n \<Longrightarrow> loc \<noteq> [] \<Longrightarrow> dir_at t (butlast loc)"
  using lookup_snoc_parent [of t "butlast loc" "last loc" n] by simp

lemma dir_at_Nil [simp]: "dir_at t [] = is_Dir t"
  by (cases t) (simp_all add: dir_at_def)

lemma dir_at_File [simp]: "dir_at (File r c) ks = False"
  by (simp add: dir_at_def lookup_File)

lemma dir_at_Dir_Cons:
  "dir_at (Dir ch) (k # ks) = (case map_of ch k of None \<Rightarrow> False | Some t \<Rightarrow> dir_at t ks)"
  by (simp add: dir_at_def split: option.splits)

lemma put_at_is_Dir [simp]: "is_Dir (put_at t (k # ks) v) = is_Dir t"
  by (cases t; cases ks) (simp_all split: option.splits)

lemma lookup_put_same:
  "loc \<noteq> [] \<Longrightarrow> dir_at t (butlast loc) \<Longrightarrow> lookup (put_at t loc v) loc = v"
proof (induction t loc v rule: put_at.induct)
  case (1 t v)
  then show ?case by simp
next
  case (2 r c k ks v)
  then show ?case by simp
next
  case (3 ch k v)
  then show ?case
    by (cases v) (simp_all add: update_conv' delete_conv')
next
  case (4 ch k k' ks v)
  then show ?case
    by (auto simp: dir_at_Dir_Cons update_conv' split: option.splits)
qed

lemma dir_at_put:
  "\<not> dir_at t loc \<Longrightarrow> (\<And>n. v = Some n \<Longrightarrow> \<not> is_Dir n) \<Longrightarrow>
     dir_at (put_at t loc v) q = dir_at t q"
proof (induction t loc v arbitrary: q rule: put_at.induct)
  case (1 t v)
  then show ?case by simp
next
  case (2 r c k ks v)
  then show ?case by simp
next
  case (3 ch k v)
  show ?case
  proof (cases q)
    case Nil
    then show ?thesis by simp
  next
    case (Cons k1 q1)
    show ?thesis
    proof (cases "k1 = k")
      case True
      from "3.prems"(1) have old: "\<not> dir_at (Dir ch) (k # q1)"
        by (cases q1) (auto simp: dir_at_def lookup_File split: option.splits node.splits)
      have new: "\<not> dir_at (put_at (Dir ch) [k] v) (k # q1)"
      proof (cases v)
        case None
        then show ?thesis by (simp add: dir_at_Dir_Cons delete_conv')
      next
        case (Some a)
        from "3.prems"(2) [OF Some] obtain r c where "a = File r c" by (cases a) auto
        with Some show ?thesis by (simp add: dir_at_Dir_Cons update_conv')
      qed
      from old new Cons True show ?thesis by simp
    next
      case False
      with Cons show ?thesis
        by (cases v) (simp_all add: dir_at_Dir_Cons update_conv' delete_conv')
    qed
  qed
next
  case (4 ch k k' ks v)
  show ?case
  proof (cases "map_of ch k")
    case None
    then show ?thesis by simp
  next
    case (Some t')
    with "4.prems"(1) have nd: "\<not> dir_at t' (k' # ks)" by (simp add: dir_at_Dir_Cons)
    have ih: "\<And>q. dir_at (put_at t' (k' # ks) v) q = dir_at t' q"
      using "4.IH" [OF Some nd "4.prems"(2)] by simp
    show ?thesis
    proof (cases q)
      case Nil
      then show ?thesis using Some by simp
    next
      case (Cons k1 q1)
      then show ?thesis using Some ih
        by (simp add: dir_at_Dir_Cons update_conv')
    qed
  qed
qed

lemma lookup_put_None_mono:
  "lookup (put_at t loc None) q = Some n \<Longrightarrow> lookup t q \<noteq> None"
proof (induction t loc "None :: node option" arbitrary: q n rule: put_at.induct)
  case (1 t)
  then show ?case by simp
next
  case (2 r c k ks)
  then show ?case by simp
next
  case (3 ch k)
  then show ?case
    by (cases q) (auto simp: delete_conv' split: option.splits if_splits)
next
  case (4 ch k k' ks)
  show ?case
  proof (cases "map_of ch k")
    case None
    with 4 show ?thesis by simp
  next
    case (Some t')
    show ?thesis
    proof (cases q)
      case Nil
      then show ?thesis by simp
    next
      case (Cons k1 q1)
      with 4 Some show ?thesis
        by (cases "k1 = k") (auto simp: update_conv' split: option.splits)
    qed
  qed
qed

lemma walk_to_cong:
  assumes "\<And>q. dir_at t' q = dir_at t q"
  shows "walk_to t' cur cs = walk_to t cur cs"
proof (induction cs arbitrary: cur)
  case Nil
  then show ?case by simp
next
  case (Cons c cs)
  have "dir_at t' cur = dir_at t cur" by (rule assms)
  then show ?case
    using Cons.IH
    by (auto simp: dir_at_def split: option.splits node.splits)
qed

section \<open>Deleting a file\<close>

lemma walk_to_root_Dir: "walk_to t cur cs = Some loc \<Longrightarrow> cs \<noteq> [] \<Longrightarrow> is_Dir t"
proof (cases cs)
  case Nil
  assume "cs \<noteq> []" with Nil show ?thesis by simp
next
  case (Cons c cs')
  assume w: "walk_to t cur cs = Some loc"
  with Cons obtain ch where "lookup t cur = Some (Dir ch)"
    by (auto split: option.splits node.splits)
  then show ?thesis by (cases t) (simp_all add: lookup_File split: if_splits)
qed

lemma split_sep_not_Nil [simp]: "split_sep s \<noteq> []"
  by (induction s) (simp_all split: list.splits)

lemma resolve_root_Dir: "resolve fs p = Some loc \<Longrightarrow> is_Dir (root fs)"
  by (auto simp: resolve_def dest: walk_to_root_Dir split: if_splits)

lemma resolve_put:
  assumes "\<not> dir_at (root fs) loc" and "\<And>n. v = Some n \<Longrightarrow> \<not> is_Dir n"
  shows "resolve (fs\<lparr>root := put_at (root fs) loc v\<rparr>) p = resolve fs p"
proof -
  have "\<And>q. dir_at (put_at (root fs) loc v) q = dir_at (root fs) q"
    using assms by (rule dir_at_put)
  then have "\<And>cur cs. walk_to (put_at (root fs) loc v) cur cs = walk_to (root fs) cur cs"
    by (rule walk_to_cong)
  then show ?thesis by (simp add: resolve_def)
qed

lemma os_remove_Returns:
  assumes "os_remove fs p = Returns fs'"
  shows "\<exists>loc r c. resolve fs p = Some loc \<and> lookup (root fs) loc = Some (File r c)
           \<and> loc \<notin> set (no_unlink fs) \<and> fs' = fs\<lparr>root := put_at (root fs) loc None\<rparr>"
  using assms
  by (auto simp: os_remove_def split: option.splits node.splits if_splits)

lemma file_at_not_Nil:
  assumes "resolve fs p = Some loc" and "lookup (root fs) loc = Some (File r c)"
  shows "loc \<noteq> []"
proof
  assume "loc = []"
  with assms(2) have "root fs = File r c" by simp
  moreover from assms(1) have "is_Dir (root fs)" by (rule resolve_root_Dir)
  ultimately show False by simp
qed

lemma os_remove_gone:
  assumes "os_remove fs p = Returns fs'"
  shows "\<not> path_exists fs' p"
proof -
  from os_remove_Returns [OF assms] obtain loc r c where
    l: "resolve fs p = Some loc" "lookup (root fs) loc = Some (File r c)"
       "fs' = fs\<lparr>root := put_at (root fs) loc None\<rparr>" by blast
  have ne: "loc \<noteq> []" using l(1,2) by (rule file_at_not_Nil)
  have nd: "\<not> dir_at (root fs) loc" using l(2) by (simp add: dir_at_def)
  have res: "resolve fs' p = Some loc"
    using resolve_put [OF nd, of None p] l by simp
  have par: "dir_at (root fs) (butlast loc)" using l(2) ne by (rule lookup_parent)
  have "lookup (root fs') loc = None"
    using lookup_put_same [OF ne par, of None] l(3) by simp
  with res show ?thesis by (simp add: path_exists_def stat_def)
qed

lemma os_remove_mono:
  assumes "os_remove fs p = Returns fs'" and "\<not> path_exists fs q"
  shows "\<not> path_exists fs' q"
proof -
  from os_remove_Returns [OF assms(1)] obtain loc r c where
    l: "resolve fs p = Some loc" "lookup (root fs) loc = Some (File r c)"
       "fs' = fs\<lparr>root := put_at (root fs) loc None\<rparr>" by blast
  have nd: "\<not> dir_at (root fs) loc" using l(2) by (simp add: dir_at_def)
  have res: "resolve fs' q = resolve fs q"
    using resolve_put [OF nd, of None q] l by simp
  show ?thesis
  proof (cases "resolve fs q")
    case None
    with res show ?thesis by (simp add: path_exists_def stat_def)
  next
    case (Some lq)
    with assms(2) have "lookup (root fs) lq = None" by (simp add: path_exists_def stat_def)
    then have "lookup (root fs') lq = None"
      using lookup_put_None_mono [of "root fs" loc lq] l(3) by (cases "lookup (root fs') lq") auto
    with res Some show ?thesis by (simp add: path_exists_def stat_def)
  qed
qed


lemma main_enc_failed:
  assumes "fst (create_unencrypted_zip (source_items cfg) (zip_filename en) w) = True"
      and "encrypt_with_openssl en (zip_filename en) (encrypted_filename en) (encryption_password cfg)
             (snd (create_unencrypted_zip (source_items cfg) (zip_filename en) w)) = (Returns False, w2)"
  shows "main cfg en w =
     (if path_exists (disk w2) (zip_filename en) then
        (case os_remove (disk w2) (zip_filename en) of
           Raises err \<Rightarrow> (Raises err, w2)
         | Returns fs \<Rightarrow> (Returns (), w2\<lparr>disk := fs\<rparr>))
      else (Returns (), w2))"
proof -
  obtain ok w1 where c: "create_unencrypted_zip (source_items cfg) (zip_filename en) w = (ok, w1)"
    by (cases "create_unencrypted_zip (source_items cfg) (zip_filename en) w")
  from assms c show ?thesis by (simp add: main_def Let_def)
qed

lemma main_enc_raised:
  assumes "fst (create_unencrypted_zip (source_items cfg) (zip_filename en) w) = True"
      and "encrypt_with_openssl en (zip_filename en) (encrypted_filename en) (encryption_password cfg)
             (snd (create_unencrypted_zip (source_items cfg) (zip_filename en) w)) = (Raises err, w2)"
  shows "main cfg en w = (Raises err, w2)"
proof -
  obtain ok w1 where c: "create_unencrypted_zip (source_items cfg) (zip_filename en) w = (ok, w1)"
    by (cases "create_unencrypted_zip (source_items cfg) (zip_filename en) w")
  from assms c show ?thesis by (simp add: main_def Let_def)
qed

section \<open>The cleanup step\<close>

text \<open>
  Claim C5, as the script has it. The cleanup step returns normally whatever the two
  deletions do. It deletes the archive if it exists; when that raises, the error is an
  \<^verbatim>\<open>OSError\<close>, it is printed, and the step ends there with the disk as it was: the
  encrypted file is not tried. Otherwise the archive does not exist any more, and the
  step deletes the encrypted file if it exists; when that raises, the error is printed
  and the step ends. When no deletion raises, the step prints what it deleted and that
  cleaning is done, and neither file exists afterwards. Here \<open>fs1\<close> is the disk and
  \<open>pre\<close> the message after the first deletion, if there was one.
\<close>

theorem cleanup_logs_deletion_errors:
  "fst (cleanup z e w) = Returns ()
   \<and> (path_exists (disk w) z \<and> os_remove (disk w) z = Raises err \<longrightarrow>
        is_OSError err
        \<and> snd (cleanup z e w) = emit [Print Msg_step4, Print (Msg_cleanup_error err)] w)
   \<and> (path_exists (disk w) z \<and> os_remove (disk w) z = Returns fs1 \<and> pre = [Print (Msg_removed_zip z)]
        \<or> \<not> path_exists (disk w) z \<and> fs1 = disk w \<and> pre = [] \<longrightarrow>
        \<not> path_exists fs1 z
        \<and> (path_exists fs1 e \<and> os_remove fs1 e = Raises err \<longrightarrow>
             is_OSError err
             \<and> snd (cleanup z e w) =
                 emit (Print Msg_step4 # pre @ [Print (Msg_cleanup_error err)]) (w\<lparr>disk := fs1\<rparr>))
        \<and> (path_exists fs1 e \<and> os_remove fs1 e = Returns fs2 \<longrightarrow>
             snd (cleanup z e w) =
               emit (Print Msg_step4 # pre @ [Print (Msg_removed_enc e), Print Msg_cleanup_done])
                 (w\<lparr>disk := fs2\<rparr>)
             \<and> \<not> path_exists fs2 z \<and> \<not> path_exists fs2 e)
        \<and> (\<not> path_exists fs1 e \<longrightarrow>
             snd (cleanup z e w) = emit (Print Msg_step4 # pre @ [Print Msg_cleanup_done]) (w\<lparr>disk := fs1\<rparr>)))"
proof (intro conjI impI)
  show "fst (cleanup z e w) = Returns ()"
  proof (cases "path_exists (disk w) z")
    case zip_there: True
    show ?thesis
    proof (cases "os_remove (disk w) z")
      case (Raises err)
      with zip_there os_remove_raises [OF Raises] show ?thesis
        by (simp add: cleanup_def Let_def)
    next
      case (Returns fs1)
      show ?thesis
      proof (cases "os_remove fs1 e")
        case (Raises err)
        with zip_there Returns os_remove_raises [OF Raises] show ?thesis
          by (simp add: cleanup_def Let_def)
      next
        case fs2: (Returns fs2)
        with zip_there Returns show ?thesis by (simp add: cleanup_def Let_def)
      qed
    qed
  next
    case zip_absent: False
    show ?thesis
    proof (cases "os_remove (disk w) e")
      case (Raises err)
      with zip_absent os_remove_raises [OF Raises] show ?thesis
        by (simp add: cleanup_def Let_def)
    next
      case fs2: (Returns fs2)
      with zip_absent show ?thesis by (simp add: cleanup_def Let_def)
    qed
  qed
next
  assume a: "path_exists (disk w) z \<and> os_remove (disk w) z = Raises err"
  then show "is_OSError err" using os_remove_raises by blast
  from a os_remove_raises [of "disk w" z err]
  show "snd (cleanup z e w) = emit [Print Msg_step4, Print (Msg_cleanup_error err)] w"
    by (simp add: cleanup_def Let_def)
next
  assume first: "path_exists (disk w) z \<and> os_remove (disk w) z = Returns fs1 \<and> pre = [Print (Msg_removed_zip z)]
        \<or> \<not> path_exists (disk w) z \<and> fs1 = disk w \<and> pre = []"
  then show z_gone: "\<not> path_exists fs1 z" using os_remove_gone by blast
  {
    assume a: "path_exists fs1 e \<and> os_remove fs1 e = Raises err"
    then show "is_OSError err" using os_remove_raises by blast
    from a first os_remove_raises [of fs1 e err]
    show "snd (cleanup z e w) =
        emit (Print Msg_step4 # pre @ [Print (Msg_cleanup_error err)]) (w\<lparr>disk := fs1\<rparr>)"
      by (auto simp: cleanup_def Let_def)
  next
    assume a: "path_exists fs1 e \<and> os_remove fs1 e = Returns fs2"
    with first show "snd (cleanup z e w) =
        emit (Print Msg_step4 # pre @ [Print (Msg_removed_enc e), Print Msg_cleanup_done])
          (w\<lparr>disk := fs2\<rparr>)"
      by (auto simp: cleanup_def Let_def)
    from a show "\<not> path_exists fs2 e" using os_remove_gone by blast
    from a z_gone show "\<not> path_exists fs2 z" using os_remove_mono by blast
  next
    assume a: "\<not> path_exists fs1 e"
    with first show "snd (cleanup z e w) =
        emit (Print Msg_step4 # pre @ [Print Msg_cleanup_done]) (w\<lparr>disk := fs1\<rparr>)"
      by (auto simp: cleanup_def Let_def)
  }
qed


theorem cleanup_logs_deletion_errors_witness:
  "fst (cleanup ''backup_20240101_120000.zip'' ''backup_20240101_120000.zip.enc''
         (snd (encrypt_with_openssl (example_env (Exited 0 (Some []) (Some [])) []) ''backup_20240101_120000.zip''
                ''backup_20240101_120000.zip.enc'' ''secret''
                (snd (create_unencrypted_zip [''f.log''] ''backup_20240101_120000.zip''
                        (example_world example_disk)))))) = Returns ()
   \<and> snd (cleanup ''backup_20240101_120000.zip'' ''backup_20240101_120000.zip.enc''
         (snd (encrypt_with_openssl (example_env (Exited 0 (Some []) (Some [])) []) ''backup_20240101_120000.zip''
                ''backup_20240101_120000.zip.enc'' ''secret''
                (snd (create_unencrypted_zip [''f.log''] ''backup_20240101_120000.zip''
                        (example_world example_disk))))))
       = emit [Print Msg_step4, Print (Msg_removed_zip ''backup_20240101_120000.zip''),
               Print (Msg_removed_enc ''backup_20240101_120000.zip.enc''), Print Msg_cleanup_done]
           ((snd (encrypt_with_openssl (example_env (Exited 0 (Some []) (Some [])) []) ''backup_20240101_120000.zip''
                ''backup_20240101_120000.zip.enc'' ''secret''
                (snd (create_unencrypted_zip [''f.log''] ''backup_20240101_120000.zip''
                        (example_world example_disk)))))\<lparr>disk := example_disk\<rparr>)
   \<and> \<not> path_exists example_disk ''backup_20240101_120000.zip''
   \<and> \<not> path_exists example_disk ''backup_20240101_120000.zip.enc''
   \<and> snd (cleanup ''backup_20240101_120000.zip'' ''backup_20240101_120000.zip.enc''
         (example_world (example_disk
            \<lparr>root := put_at (root example_disk) [''home'', ''u'', ''backup_20240101_120000.zip'']
                       (Some (File (file_attrs True) (Archive []))),
             no_unlink := [[''home'', ''u'', ''backup_20240101_120000.zip'']]\<rparr>)))
       = emit [Print Msg_step4, Print (Msg_cleanup_error PermissionError)]
           (example_world (example_disk
            \<lparr>root := put_at (root example_disk) [''home'', ''u'', ''backup_20240101_120000.zip'']
                       (Some (File (file_attrs True) (Archive []))),
             no_unlink := [[''home'', ''u'', ''backup_20240101_120000.zip'']]\<rparr>))"
proof -
  let ?z = "''backup_20240101_120000.zip''"
  let ?e = "''backup_20240101_120000.zip.enc''"
  let ?w = "snd (encrypt_with_openssl (example_env (Exited 0 (Some []) (Some [])) []) ?z ?e ''secret''
                (snd (create_unencrypted_zip [''f.log''] ?z (example_world example_disk))))"
  let ?fs1 = "example_disk\<lparr>root := put_at (root example_disk) [''home'', ''u'', ?e]
                 (Some (File \<lparr>readable = True, mtime_year = 2024\<rparr> (Plain ''Salted__'')))\<rparr>"
  let ?held = "example_world (example_disk
            \<lparr>root := put_at (root example_disk) [''home'', ''u'', ?z]
                       (Some (File (file_attrs True) (Archive []))),
             no_unlink := [[''home'', ''u'', ?z]]\<rparr>)"
  have z: "path_exists (disk ?w) ?z \<and> os_remove (disk ?w) ?z = Returns ?fs1
             \<and> [Print (Msg_removed_zip ?z)] = [Print (Msg_removed_zip ?z)]"
    by code_simp
  have e: "path_exists ?fs1 ?e \<and> os_remove ?fs1 ?e = Returns example_disk"
    by code_simp
  have h: "path_exists (disk ?held) ?z \<and> os_remove (disk ?held) ?z = Raises PermissionError"
    by code_simp
  show ?thesis
    using cleanup_logs_deletion_errors [of ?z ?e ?w PermissionError ?fs1 "[Print (Msg_removed_zip ?z)]" example_disk] z e
      cleanup_logs_deletion_errors [of ?z ?e ?held PermissionError] h
    by simp
qed

text \<open>
  Claim C5 as stated also says that both deletions are attempted. They are not when
  the first one fails: in this run \<^verbatim>\<open>os.remove\<close> is refused for the archive, the
  handler prints the error, and the encrypted file is still on disk afterwards although
  deleting it would succeed.
\<close>

theorem cleanup_skips_second_deletion:
  "Print Msg_step4 \<in> set (events (snd (main (example_config [''f.log'']) (example_env (Exited 0 (Some []) (Some [])) [])
       (example_world (example_disk\<lparr>no_unlink := [[''home'', ''u'', ''backup_20240101_120000.zip'']]\<rparr>)))))
   \<and> Print (Msg_cleanup_error PermissionError) \<in> set (events (snd (main (example_config [''f.log''])
       (example_env (Exited 0 (Some []) (Some [])) [])
       (example_world (example_disk\<lparr>no_unlink := [[''home'', ''u'', ''backup_20240101_120000.zip'']]\<rparr>)))))
   \<and> path_exists (disk (snd (main (example_config [''f.log'']) (example_env (Exited 0 (Some []) (Some [])) [])
       (example_world (example_disk\<lparr>no_unlink := [[''home'', ''u'', ''backup_20240101_120000.zip'']]\<rparr>)))))
         ''backup_20240101_120000.zip.enc''
   \<and> \<not> raised (os_remove (disk (snd (main (example_config [''f.log'']) (example_env (Exited 0 (Some []) (Some [])) [])
       (example_world (example_disk\<lparr>no_unlink := [[''home'', ''u'', ''backup_20240101_120000.zip'']]\<rparr>)))))
         ''backup_20240101_120000.zip.enc'')"
proof -
  let ?en = "example_env (Exited 0 (Some []) (Some [])) [] :: (string \<times> string) list env"
  let ?cfg = "example_config [''f.log'']"
  let ?w = "example_world (example_disk\<lparr>no_unlink := [[''home'', ''u'', ''backup_20240101_120000.zip'']]\<rparr>)"
  let ?c = "create_unencrypted_zip (source_items ?cfg) (zip_filename ?en) ?w"
  let ?e = "encrypt_with_openssl ?en (zip_filename ?en) (encrypted_filename ?en)
              (encryption_password ?cfg) (snd ?c)"
  let ?m = "cleanup (zip_filename ?en) (encrypted_filename ?en)
              (upload_all ?en (webdav_servers ?cfg) (encrypted_filename ?en) (now_month ?en) (snd ?e))"
  have c: "fst ?c = True" by code_simp
  have e: "fst ?e = Returns True" by code_simp
  have m: "main ?cfg ?en ?w = ?m" using c e by (rule main_success)
  have "Print Msg_step4 \<in> set (events (snd ?m))
      \<and> Print (Msg_cleanup_error PermissionError) \<in> set (events (snd ?m))
      \<and> path_exists (disk (snd ?m)) ''backup_20240101_120000.zip.enc''
      \<and> \<not> raised (os_remove (disk (snd ?m)) ''backup_20240101_120000.zip.enc'')"
    by code_simp
  then show ?thesis unfolding m .
qed

section \<open>Runs that stop early\<close>

lemma filter_dav_events:
  "events w' = events w @ new \<Longrightarrow> filter is_dav new = [] \<Longrightarrow>
     filter is_dav (events w') = filter is_dav (events w)"
  by simp

lemma create_no_dav:
  "filter is_dav (events (snd (create_unencrypted_zip items name w))) = filter is_dav (events w)"
proof -
  obtain ok w' where c: "create_unencrypted_zip items name w = (ok, w')"
    by (cases "create_unencrypted_zip items name w")
  from create_events [OF c] show ?thesis using c by auto
qed

lemma encrypt_no_dav:
  "filter is_dav (events (snd (encrypt_with_openssl en i outp pw w))) = filter is_dav (events w)"
proof -
  obtain r w' where e: "encrypt_with_openssl en i outp pw w = (r, w')"
    by (cases "encrypt_with_openssl en i outp pw w")
  from encrypt_events [OF e] show ?thesis using e by auto
qed





text \<open>
  Claim C2, as the script has it. When the encryption step reports failure (returns
  \<open>False\<close>) no request is made of any WebDAV server, and \<open>main\<close> deletes the archive if
  it exists: either \<open>main\<close> returns and the archive does not exist, or the deletion
  raised and that exception leaves \<open>main\<close>.
\<close>

theorem failed_encryption_removes_archive:
  assumes zip_ok: "fst (create_unencrypted_zip (source_items cfg) (zip_filename en) w) = True"
      and enc_failed:
        "encrypt_with_openssl en (zip_filename en) (encrypted_filename en) (encryption_password cfg)
           (snd (create_unencrypted_zip (source_items cfg) (zip_filename en) w)) = (Returns False, w2)"
  shows "filter is_dav (events (snd (main cfg en w))) = filter is_dav (events w)
       \<and> ((fst (main cfg en w) = Returns ()
            \<and> \<not> path_exists (disk (snd (main cfg en w))) (zip_filename en))
          \<or> (\<exists>err. is_OSError err \<and> main cfg en w = (Raises err, w2)
                \<and> os_remove (disk w2) (zip_filename en) = Raises err))"
proof -
  note m = main_enc_failed [OF zip_ok enc_failed]
  have ev: "filter is_dav (events w2) = filter is_dav (events w)"
    using encrypt_no_dav [of en "zip_filename en" "encrypted_filename en" "encryption_password cfg"
        "snd (create_unencrypted_zip (source_items cfg) (zip_filename en) w)"]
    by (simp add: enc_failed create_no_dav)
  show ?thesis
  proof (cases "path_exists (disk w2) (zip_filename en)")
    case False
    with m ev show ?thesis by simp
  next
    case True
    show ?thesis
    proof (cases "os_remove (disk w2) (zip_filename en)")
      case (Returns fs)
      from os_remove_gone [OF Returns] m ev True Returns show ?thesis by simp
    next
      case (Raises err)
      from os_remove_raises [OF Raises] m ev True Raises show ?thesis by simp
    qed
  qed
qed


theorem failed_encryption_removes_archive_witness:
  "fst (main (example_config [''f.log'']) (example_env (Exited 1 (Some []) (Some ''bad password'')) [])
          (example_world example_disk)) = Returns ()
   \<and> \<not> path_exists (disk (snd (main (example_config [''f.log''])
          (example_env (Exited 1 (Some []) (Some ''bad password'')) []) (example_world example_disk))))
        ''backup_20240101_120000.zip''
   \<and> filter is_dav (events (snd (main (example_config [''f.log''])
          (example_env (Exited 1 (Some []) (Some ''bad password'')) []) (example_world example_disk)))) = []"
proof -
  let ?en = "example_env (Exited 1 (Some []) (Some ''bad password'')) [] :: (string \<times> string) list env"
  let ?cfg = "example_config [''f.log'']"
  let ?w = "example_world example_disk"
  let ?e = "encrypt_with_openssl ?en (zip_filename ?en) (encrypted_filename ?en) (encryption_password ?cfg)
               (snd (create_unencrypted_zip (source_items ?cfg) (zip_filename ?en) ?w))"
  have c: "fst (create_unencrypted_zip (source_items ?cfg) (zip_filename ?en) ?w) = True"
    by code_simp
  have "fst ?e = Returns False" by code_simp
  then have e: "?e = (Returns False, snd ?e)" by (simp add: prod_eq_iff)
  have ok: "\<not> raised (os_remove (disk (snd ?e)) (zip_filename ?en))" by code_simp
  have z: "zip_filename ?en = ''backup_20240101_120000.zip''" by code_simp
  have w0: "events ?w = []" by (simp add: example_world_def)
  show ?thesis
    using failed_encryption_removes_archive [OF c e] ok
    by (auto simp: z w0 raised_def)
qed

text \<open>
  Claim C2 as stated covers every run in which the encryption step fails. Two runs in
  which the archive stays on disk: \<^verbatim>\<open>openssl\<close> is found but may not be executed, so
  \<^verbatim>\<open>subprocess.run\<close> raises \<^verbatim>\<open>PermissionError\<close>, which neither handler of
  \<open>encrypt_with_openssl\<close> catches; and \<^verbatim>\<open>openssl\<close> exits with 1 while the operating
  system refuses to delete the archive.
\<close>

theorem archive_left_after_failed_encryption:
  "fst (main (example_config [''f.log'']) (example_env (Spawn_failed PermissionError) [])
          (example_world example_disk)) = Raises PermissionError
   \<and> path_exists (disk (snd (main (example_config [''f.log''])
          (example_env (Spawn_failed PermissionError) []) (example_world example_disk))))
        ''backup_20240101_120000.zip''
   \<and> fst (encrypt_with_openssl (example_env (Exited 1 (Some []) (Some ''bad password'')) [])
        ''backup_20240101_120000.zip'' ''backup_20240101_120000.zip.enc'' ''secret''
        (snd (create_unencrypted_zip [''f.log''] ''backup_20240101_120000.zip''
          (example_world (example_disk\<lparr>no_unlink := [[''home'', ''u'', ''backup_20240101_120000.zip'']]\<rparr>)))))
       = Returns False
   \<and> path_exists (disk (snd (main (example_config [''f.log''])
          (example_env (Exited 1 (Some []) (Some ''bad password'')) [])
          (example_world (example_disk\<lparr>no_unlink := [[''home'', ''u'', ''backup_20240101_120000.zip'']]\<rparr>)))))
        ''backup_20240101_120000.zip''"
proof -
  let ?enp = "example_env (Spawn_failed PermissionError) [] :: (string \<times> string) list env"
  let ?en1 = "example_env (Exited 1 (Some []) (Some ''bad password'')) [] :: (string \<times> string) list env"
  let ?cfg = "example_config [''f.log'']"
  let ?w = "example_world example_disk"
  let ?wl = "example_world (example_disk\<lparr>no_unlink := [[''home'', ''u'', ''backup_20240101_120000.zip'']]\<rparr>)"
  let ?ep = "encrypt_with_openssl ?enp (zip_filename ?enp) (encrypted_filename ?enp) (encryption_password ?cfg)
               (snd (create_unencrypted_zip (source_items ?cfg) (zip_filename ?enp) ?w))"
  let ?e1 = "encrypt_with_openssl ?en1 (zip_filename ?en1) (encrypted_filename ?en1) (encryption_password ?cfg)
               (snd (create_unencrypted_zip (source_items ?cfg) (zip_filename ?en1) ?wl))"
  have cp: "fst (create_unencrypted_zip (source_items ?cfg) (zip_filename ?enp) ?w) = True"
    by code_simp
  have "fst ?ep = Raises PermissionError" by code_simp
  then have ep: "?ep = (Raises PermissionError, snd ?ep)" by (simp add: prod_eq_iff)
  have mp: "main ?cfg ?enp ?w = (Raises PermissionError, snd ?ep)"
    using cp ep by (rule main_enc_raised)
  have zp: "path_exists (disk (snd ?ep)) ''backup_20240101_120000.zip''" by code_simp
  have c1: "fst (create_unencrypted_zip (source_items ?cfg) (zip_filename ?en1) ?wl) = True"
    by code_simp
  have f1: "fst ?e1 = Returns False" by code_simp
  then have e1: "?e1 = (Returns False, snd ?e1)" by (simp add: prod_eq_iff)
  have r1: "path_exists (disk (snd ?e1)) (zip_filename ?en1)
      \<and> os_remove (disk (snd ?e1)) (zip_filename ?en1) = Raises PermissionError"
    by code_simp
  have m1: "main ?cfg ?en1 ?wl = (Raises PermissionError, snd ?e1)"
    unfolding main_enc_failed [OF c1 e1] using r1 by simp
  have z1: "path_exists (disk (snd ?e1)) ''backup_20240101_120000.zip''" by code_simp
  have names: "zip_filename ?en1 = ''backup_20240101_120000.zip''"
    "encrypted_filename ?en1 = ''backup_20240101_120000.zip.enc''"
    "encryption_password ?cfg = ''secret''" "source_items ?cfg = [''f.log'']"
    by code_simp+
  show ?thesis
    using zp z1 f1 by (simp add: mp m1 names)
qed

text \<open>
  Claim C7 says that after a failed archive step no archive file is left: a partial
  file is removed by \<open>main\<close>. In this run the second source file cannot be read. The
  archive step returns \<open>False\<close>, \<open>main\<close> returns at line 104, and the archive with the
  first file in it is on disk afterwards.
\<close>

theorem partial_archive_left_behind:
  "fst (create_unencrypted_zip [''f.log'', ''secret''] ''backup_20240101_120000.zip''
          (example_world example_disk)) = False
   \<and> fst (main (example_config [''f.log'', ''secret'']) (example_env (Exited 0 (Some []) (Some [])) [])
          (example_world example_disk)) = Returns ()
   \<and> stat (disk (snd (main (example_config [''f.log'', ''secret'']) (example_env (Exited 0 (Some []) (Some [])) [])
          (example_world example_disk)))) ''backup_20240101_120000.zip''
       = Some (File \<lparr>readable = True, mtime_year = 2024\<rparr> (Archive [(''f.log'', Plain ''log'')]))"
proof -
  let ?en = "example_env (Exited 0 (Some []) (Some [])) [] :: (string \<times> string) list env"
  let ?cfg = "example_config [''f.log'', ''secret'']"
  let ?w = "example_world example_disk"
  let ?c = "create_unencrypted_zip (source_items ?cfg) (zip_filename ?en) ?w"
  have a: "fst ?c = False" by code_simp
  have names: "zip_filename ?en = ''backup_20240101_120000.zip''"
    "source_items ?cfg = [''f.log'', ''secret'']"
    by code_simp+
  have st: "stat (disk (snd ?c)) ''backup_20240101_120000.zip''
       = Some (File \<lparr>readable = True, mtime_year = 2024\<rparr> (Archive [(''f.log'', Plain ''log'')]))"
    by code_simp
  show ?thesis
    using a st by (simp add: main_zip_failed [OF a] names)
qed

section \<open>Source items that do not exist\<close>

lemma lookup_put_Some_other:
  "lookup t q = None \<Longrightarrow> q \<noteq> loc \<Longrightarrow> \<not> is_Dir n \<Longrightarrow>
     lookup (put_at t loc (Some n)) q = None"
proof (induction t loc "Some n" arbitrary: q rule: put_at.induct)
  case (1 t)
  then show ?case by simp
next
  case (2 r c k ks)
  then show ?case by simp
next
  case (3 ch k)
  from "3.prems"(3) obtain r c where n: "n = File r c" by (cases n) auto
  show ?case
  proof (cases q)
    case Nil
    with "3.prems"(1) show ?thesis by simp
  next
    case (Cons k1 q1)
    show ?thesis
    proof (cases "k1 = k")
      case True
      with Cons "3.prems"(2) have "q1 \<noteq> []" by simp
      with Cons True n show ?thesis by (simp add: update_conv' lookup_File)
    next
      case False
      with Cons "3.prems"(1) show ?thesis by (simp add: update_conv')
    qed
  qed
next
  case (4 ch k k' ks)
  show ?case
  proof (cases "map_of ch k")
    case None
    with "4.prems"(1) show ?thesis by simp
  next
    case (Some t')
    show ?thesis
    proof (cases q)
      case Nil
      with "4.prems"(1) show ?thesis by simp
    next
      case (Cons k1 q1)
      show ?thesis
      proof (cases "k1 = k")
        case True
        with Cons Some "4.prems" have "lookup t' q1 = None" "q1 \<noteq> k' # ks" by simp_all
        from "4.hyps" [OF Some this "4.prems"(3)] Cons True Some show ?thesis
          by (simp add: update_conv')
      next
        case False
        with Cons Some "4.prems"(1) show ?thesis by (simp add: update_conv')
      qed
    qed
  qed
qed

lemma zip_open_Returns:
  assumes "zip_open fs name = Returns (zf, fs1)"
  shows "\<exists>loc. resolve fs name = Some loc \<and> \<not> dir_at (root fs) loc
           \<and> zf = \<lparr>zf_location = loc, zf_entries = []\<rparr>
           \<and> fs1 = fs\<lparr>root := put_at (root fs) loc
                  (Some (set_content (clock_year fs) (lookup (root fs) loc) Unfinished))\<rparr>"
  using assms
  by (auto simp: zip_open_def dir_at_def split: option.splits node.splits if_splits)

lemma set_content_not_Dir [simp]: "\<not> is_Dir (set_content y old c)"
  by (simp add: set_content_def split: option.splits node.splits)

lemma stat_None_iff: "(stat fs p = None) = (\<not> isfile fs p \<and> \<not> isdir fs p)"
  by (auto simp: isfile_def isdir_def split: option.splits node.splits)

lemma zip_open_keeps_absent:
  assumes op: "zip_open fs name = Returns (zf, fs1)"
      and absent: "stat fs item = None"
      and other: "resolve fs item \<noteq> resolve fs name"
  shows "stat fs1 item = None"
proof -
  from zip_open_Returns [OF op] obtain loc where
    l: "resolve fs name = Some loc" "\<not> dir_at (root fs) loc"
       "fs1 = fs\<lparr>root := put_at (root fs) loc (Some (set_content (clock_year fs) (lookup (root fs) loc) Unfinished))\<rparr>"
    by blast
  have res: "resolve fs1 item = resolve fs item"
    unfolding l(3) by (rule resolve_put [OF l(2)]) auto
  show ?thesis
  proof (cases "resolve fs item")
    case None
    with res show ?thesis by (simp add: stat_def)
  next
    case (Some li)
    with absent have "lookup (root fs) li = None" by (simp add: stat_def)
    moreover from Some other l(1) have "li \<noteq> loc" by auto
    ultimately have "lookup (root fs1) li = None"
      unfolding l(3) by (simp add: lookup_put_Some_other)
    with res Some show ?thesis by (simp add: stat_def)
  qed
qed

lemma add_items_skip:
  assumes "\<not> isfile fs item" and "\<not> isdir fs item"
  shows "add_items fs (xs @ item # ys) zf out = add_items fs (xs @ ys) zf out"
proof (induction xs arbitrary: zf out)
  case Nil
  from assms show ?case by simp
next
  case (Cons x xs)
  then show ?case
    by (simp split: result.splits prod.splits option.splits)
qed

text \<open>
  Claim C8, as the script has it. A source item that is neither an existing regular file
  nor an existing directory when the archive step is called, and that does not name the
  archive file itself, is passed over without a trace: the archive step gives the same
  result, the same archive on disk and the same messages as it gives for the list
  without the item, so it reports success whenever the remaining items succeed.
\<close>

theorem missing_item_skipped:
  assumes no_file: "\<not> isfile (disk w) item"
      and no_dir: "\<not> isdir (disk w) item"
      and not_archive: "\<forall>loc. resolve (disk w) item = Some loc \<longrightarrow> resolve (disk w) name \<noteq> Some loc"
  shows "create_unencrypted_zip (xs @ item # ys) name w = create_unencrypted_zip (xs @ ys) name w"
proof (cases "zip_open (disk w) name")
  case (Raises e)
  then show ?thesis by (simp add: create_unencrypted_zip_def Let_def)
next
  case (Returns p)
  obtain zf fs1 where p: "p = (zf, fs1)" by (cases p)
  from no_file no_dir have absent: "stat (disk w) item = None" by (simp add: stat_None_iff)
  from Returns p obtain loc where "resolve (disk w) name = Some loc"
    using zip_open_Returns by blast
  with not_archive have "resolve (disk w) item \<noteq> resolve (disk w) name"
    by (cases "resolve (disk w) item") auto
  with Returns p absent have "stat fs1 item = None"
    by (auto intro: zip_open_keeps_absent)
  then have "\<not> isfile fs1 item" "\<not> isdir fs1 item" by (simp_all add: stat_None_iff)
  then have "add_items fs1 (xs @ item # ys) zf [] = add_items fs1 (xs @ ys) zf []"
    by (rule add_items_skip)
  with Returns p show ?thesis by (simp add: create_unencrypted_zip_def Let_def)
qed

theorem missing_item_skipped_witness:
  "\<not> isfile (disk (example_world example_disk)) ''no/such''
   \<and> \<not> isdir (disk (example_world example_disk)) ''no/such''
   \<and> create_unencrypted_zip [''data'', ''no/such'', ''f.log''] ''b.zip'' (example_world example_disk)
      = create_unencrypted_zip [''data'', ''f.log''] ''b.zip'' (example_world example_disk)
   \<and> fst (create_unencrypted_zip [''data'', ''no/such'', ''f.log''] ''b.zip'' (example_world example_disk))
      = True"
proof -
  have r: "resolve (disk (example_world example_disk)) ''no/such'' = None"
    by code_simp
  have h: "\<not> isfile (disk (example_world example_disk)) ''no/such''"
    "\<not> isdir (disk (example_world example_disk)) ''no/such''"
    "\<forall>loc. resolve (disk (example_world example_disk)) ''no/such'' = Some loc \<longrightarrow>
       resolve (disk (example_world example_disk)) ''b.zip'' \<noteq> Some loc"
    by (code_simp, code_simp, simp add: r)
  have t: "fst (create_unencrypted_zip [''data'', ''f.log''] ''b.zip'' (example_world example_disk)) = True"
    by code_simp
  show ?thesis
    using missing_item_skipped [OF h, of "[''data'']" "[''f.log'']"] h t by simp
qed

text \<open>
  Claim C8 as stated covers every item that is neither a file nor a directory. An item
  that names the archive file is one before the call, but line 29 creates the file
  before line 31 tests the item: here \<^verbatim>\<open>b.zip\<close> does not exist when the step is called
  with the item \<^verbatim>\<open>b.zip\<close> and the archive \<^verbatim>\<open>b.zip\<close>, and the item is announced as
  added and is an entry of the archive, which the run without the item does not have.
\<close>

theorem archive_path_item_is_added:
  "\<not> isfile (disk (example_world example_disk)) ''b.zip''
   \<and> \<not> isdir (disk (example_world example_disk)) ''b.zip''
   \<and> create_unencrypted_zip [''b.zip''] ''b.zip'' (example_world example_disk)
      = (True,
         emit [Print (Msg_step1 ''b.zip''), Print (Msg_added_file ''b.zip''), Print Msg_zip_ok]
           (example_world (example_disk\<lparr>root := put_at (root example_disk) [''home'', ''u'', ''b.zip'']
              (Some (File \<lparr>readable = True, mtime_year = 2024\<rparr> (Archive [(''b.zip'', Unfinished)])))\<rparr>)))
   \<and> create_unencrypted_zip [] ''b.zip'' (example_world example_disk)
      = (True,
         emit [Print (Msg_step1 ''b.zip''), Print Msg_zip_ok]
           (example_world (example_disk\<lparr>root := put_at (root example_disk) [''home'', ''u'', ''b.zip'']
              (Some (File \<lparr>readable = True, mtime_year = 2024\<rparr> (Archive [])))\<rparr>)))"
  by code_simp

section \<open>The remote directory\<close>



section \<open>Paths through the path functions\<close>

subsection \<open>Splitting and joining\<close>

lemma split_sep_Cons:
  "split_sep (c # cs) =
     (if c = CHR ''/'' then [] # split_sep cs else (c # hd (split_sep cs)) # tl (split_sep cs))"
  by (cases "split_sep cs") simp_all

lemma split_sep_append_sep: "split_sep (a @ CHR ''/'' # b) = split_sep a @ split_sep b"
  by (induction a) (simp_all split: list.splits)

lemma split_sep_no_sep: "CHR ''/'' \<notin> set a \<Longrightarrow> split_sep a = [a]"
  by (induction a) auto

lemma split_sep_single: "(tl (split_sep s) = []) = (CHR ''/'' \<notin> set s)"
  by (induction s) (auto split: list.splits)

lemma join_sep_Cons: "ys \<noteq> [] \<Longrightarrow> join_sep (x # ys) = x @ CHR ''/'' # join_sep ys"
  by (cases ys) simp_all

lemma join_sep_append:
  "xs \<noteq> [] \<Longrightarrow> ys \<noteq> [] \<Longrightarrow> join_sep (xs @ ys) = join_sep xs @ CHR ''/'' # join_sep ys"
  by (induction xs rule: join_sep.induct) (simp_all add: join_sep_Cons)

lemma join_sep_snoc: "xs \<noteq> [] \<Longrightarrow> join_sep (xs @ [k]) = join_sep xs @ CHR ''/'' # k"
  by (simp add: join_sep_append)

lemma join_sep_push: "join_sep ((c # x) # xs) = c # join_sep (x # xs)"
  by (cases xs) simp_all

lemma join_split: "join_sep (split_sep p) = p"
proof (induction p)
  case Nil
  then show ?case by simp
next
  case (Cons c p)
  obtain x xs where s: "split_sep p = x # xs" by (cases "split_sep p") simp_all
  with Cons show ?case by (simp add: join_sep_push)
qed

lemma split_join:
  "cs \<noteq> [] \<Longrightarrow> \<forall>c\<in>set cs. CHR ''/'' \<notin> set c \<Longrightarrow> split_sep (join_sep cs) = cs"
proof (induction cs rule: join_sep.induct)
  case 1
  then show ?case by simp
next
  case (2 x)
  then show ?case by (simp add: split_sep_no_sep)
next
  case (3 x y ys)
  then show ?case by (simp add: split_sep_append_sep split_sep_no_sep)
qed

subsection \<open>Names\<close>

lemma valid_nameD:
  assumes "valid_name k"
  shows "k \<noteq> [] \<and> CHR ''/'' \<notin> set k \<and> k \<noteq> ''.'' \<and> k \<noteq> ''..'' \<and> hd k \<noteq> CHR ''/''
     \<and> last k \<noteq> CHR ''/''"
proof -
  from assms have k: "k \<noteq> []" "CHR ''/'' \<notin> set k" "k \<noteq> ''.''" "k \<noteq> ''..''"
    by (simp_all add: valid_name_def)
  from k(1) have "hd k \<in> set k" "last k \<in> set k" by simp_all
  with k show ?thesis by metis
qed

lemma names_no_sep: "list_all valid_name cs \<Longrightarrow> \<forall>c\<in>set cs. CHR ''/'' \<notin> set c"
  by (auto simp: list_all_iff valid_name_def)

lemma split_join_names: "cs \<noteq> [] \<Longrightarrow> list_all valid_name cs \<Longrightarrow> split_sep (join_sep cs) = cs"
  by (rule split_join) (auto dest: names_no_sep)

lemma join_sep_names_hd:
  "cs \<noteq> [] \<Longrightarrow> list_all valid_name cs \<Longrightarrow> join_sep cs \<noteq> [] \<and> hd (join_sep cs) \<noteq> CHR ''/''"
  by (cases cs rule: join_sep.cases) (auto dest: valid_nameD)

lemma join_sep_names_last:
  "cs \<noteq> [] \<Longrightarrow> list_all valid_name cs \<Longrightarrow> last (join_sep cs) \<noteq> CHR ''/''"
proof (induction cs rule: join_sep.induct)
  case 1
  then show ?case by simp
next
  case (2 x)
  then show ?case by (auto dest: valid_nameD)
next
  case (3 x y ys)
  then have "join_sep (y # ys) \<noteq> []" using join_sep_names_hd [of "y # ys"] by simp
  with 3 show ?case by simp
qed

lemma split_sep_comps: "c \<in> set (split_sep p) \<Longrightarrow> CHR ''/'' \<notin> set c"
proof (induction p arbitrary: c)
  case Nil
  then show ?case by simp
next
  case (Cons a p)
  obtain x xs where s: "split_sep p = x # xs" by (cases "split_sep p") simp_all
  with Cons show ?case by (auto split: if_splits)
qed

lemma path_join_name:
  assumes "valid_name k"
  shows "path_join a k = (if a = [] \<or> last a = CHR ''/'' then a @ k else a @ CHR ''/'' # k)"
  using valid_nameD [OF assms] by (simp add: path_join_def isabs_def)

subsection \<open>normpath and abspath\<close>

lemma norm_comps_names:
  "list_all valid_name cs \<Longrightarrow> norm_comps ini new cs = new @ cs"
  by (induction cs arbitrary: new) (auto dest: valid_nameD)

lemma norm_comps_append:
  "norm_comps ini new (xs @ ys) = norm_comps ini (norm_comps ini new xs) ys"
  by (induction ini new xs rule: norm_comps.induct) auto

lemma walk_to_norm:
  "walk_to t cur cs = Some loc \<Longrightarrow> list_all valid_name cur \<Longrightarrow>
     \<forall>c\<in>set cs. CHR ''/'' \<notin> set c \<Longrightarrow>
     norm_comps True cur cs = loc \<and> list_all valid_name loc"
proof (induction cs arbitrary: cur)
  case Nil
  then show ?case by simp
next
  case (Cons c cs)
  from Cons.prems(1) obtain ch where d: "lookup t cur = Some (Dir ch)"
    by (auto split: option.splits node.splits)
  from Cons.prems(3) have cs: "\<forall>c\<in>set cs. CHR ''/'' \<notin> set c" and c: "CHR ''/'' \<notin> set c"
    by simp_all
  have la: "cur \<noteq> [] \<Longrightarrow> last cur \<noteq> ''..''"
    using Cons.prems(2) by (auto simp: list_all_iff valid_name_def dest: last_in_set)
  consider (skip) "c = [] \<or> c = ''.''" | (up) "c = ''..''" | (name) "c \<noteq> []" "c \<noteq> ''.''" "c \<noteq> ''..''"
    by blast
  then show ?case
  proof cases
    case skip
    with Cons.prems(1) d have "walk_to t cur cs = Some loc" by auto
    from Cons.IH [OF this Cons.prems(2) cs] skip show ?thesis by auto
  next
    case up
    with Cons.prems(1) d have w: "walk_to t (butlast cur) cs = Some loc" by simp
    have "list_all valid_name (butlast cur)"
      using Cons.prems(2) by (auto simp: list_all_iff dest: in_set_butlastD)
    from Cons.IH [OF w this cs] up la show ?thesis by (cases "cur = []") auto
  next
    case name
    with Cons.prems(1) d have w: "walk_to t (cur @ [c]) cs = Some loc" by simp
    have "valid_name c" using name c by (simp add: valid_name_def)
    with Cons.prems(2) have "list_all valid_name (cur @ [c])" by simp
    from Cons.IH [OF w this cs] name show ?thesis by simp
  qed
qed

lemma comps_slashes:
  assumes "list_all valid_name cs"
  shows "filter (\<lambda>x. x \<noteq> []) (split_sep (replicate n (CHR ''/'') @ join_sep cs)) = cs"
proof (induction n)
  case 0
  show ?case
  proof (cases "cs = []")
    case True
    then show ?thesis by simp
  next
    case False
    have "filter (\<lambda>x. x \<noteq> []) cs = cs"
      using assms by (auto simp: list_all_iff filter_id_conv dest: valid_nameD)
    then show ?thesis using split_join_names [OF False assms] by simp
  qed
next
  case (Suc n)
  then show ?case by simp
qed


lemma getcwd_join_split:
  assumes cwdn: "list_all valid_name (cwd fs)" and p: "p \<noteq> []" "\<not> isabs p"
  shows "\<exists>rest. path_join (getcwd fs) p = CHR ''/'' # rest \<and> take 1 rest \<noteq> ''/''
           \<and> split_sep rest = cwd fs @ split_sep p"
proof (cases "cwd fs = []")
  case True
  from p have "take 1 p \<noteq> ''/''" by (cases p) (simp_all add: isabs_def)
  with True p show ?thesis
    by (simp add: path_join_def getcwd_def)
next
  case False
  from join_sep_names_hd [OF False cwdn] obtain x xs where j: "join_sep (cwd fs) = x # xs" "x \<noteq> CHR ''/''"
    by (cases "join_sep (cwd fs)") auto
  have la: "last (join_sep (cwd fs)) \<noteq> CHR ''/''"
    using False cwdn by (rule join_sep_names_last)
  have pj: "path_join (getcwd fs) p = CHR ''/'' # (join_sep (cwd fs) @ CHR ''/'' # p)"
    using p j la by (simp add: path_join_def getcwd_def)
  have "split_sep (join_sep (cwd fs) @ CHR ''/'' # p) = cwd fs @ split_sep p"
    using split_join_names [OF False cwdn] by (simp add: split_sep_append_sep)
  with pj j show ?thesis by simp
qed

lemma abspath_resolve:
  assumes cwdn: "list_all valid_name (cwd fs)" and r: "resolve fs p = Some loc"
  shows "filter (\<lambda>x. x \<noteq> []) (split_sep (abspath fs p)) = loc \<and> list_all valid_name loc"
proof -
  from r have p: "p \<noteq> []" by (auto simp: resolve_def split: if_splits)
  have comps: "\<forall>c\<in>set (split_sep p). CHR ''/'' \<notin> set c" by (auto dest: split_sep_comps)
  show ?thesis
  proof (cases "isabs p")
    case True
    with r p have w: "walk_to (root fs) [] (split_sep p) = Some loc" by (simp add: resolve_def)
    from walk_to_norm [OF w _ comps] have n: "norm_comps True [] (split_sep p) = loc"
      and v: "list_all valid_name loc" by simp_all
    from True have i: "0 < initial_slashes p" by (simp add: initial_slashes_def)
    then have "replicate (initial_slashes p) (CHR ''/'') @ join_sep loc \<noteq> []" by simp
    with True p i n have "abspath fs p = replicate (initial_slashes p) (CHR ''/'') @ join_sep loc"
      by (simp add: abspath_def normpath_def Let_def)
    with comps_slashes [OF v] v show ?thesis by simp
  next
    case False
    with r p have w: "walk_to (root fs) (cwd fs) (split_sep p) = Some loc" by (simp add: resolve_def)
    from walk_to_norm [OF w cwdn comps] have n: "norm_comps True (cwd fs) (split_sep p) = loc"
      and v: "list_all valid_name loc" by simp_all
    from getcwd_join_split [OF cwdn p False] obtain rest where
      f: "path_join (getcwd fs) p = CHR ''/'' # rest" "take 1 rest \<noteq> ''/''"
         "split_sep rest = cwd fs @ split_sep p" by blast
    from f(2) have i: "initial_slashes (CHR ''/'' # rest) = 1"
      by (cases rest) (simp_all add: initial_slashes_def isabs_def)
    have "norm_comps True [] ([] # cwd fs @ split_sep p) = loc"
      using n cwdn by (simp add: norm_comps_append norm_comps_names)
    then have "normpath (CHR ''/'' # rest) = CHR ''/'' # join_sep loc"
      by (simp add: normpath_def i f(3) Let_def)
    with False f(1) have "abspath fs p = replicate 1 (CHR ''/'') @ join_sep loc"
      by (simp add: abspath_def)
    with comps_slashes [OF v, of 1] v show ?thesis by simp
  qed
qed

lemma abspath_empty:
  assumes "list_all valid_name (cwd fs)"
  shows "filter (\<lambda>x. x \<noteq> []) (split_sep (abspath fs [])) = cwd fs"
proof -
  have n: "norm_comps True [] (cwd fs @ [[]]) = cwd fs"
    using assms by (simp add: norm_comps_append norm_comps_names)
  show ?thesis
  proof (cases "cwd fs = []")
    case True
    then show ?thesis
      by (simp add: abspath_def isabs_def path_join_def getcwd_def normpath_def initial_slashes_def)
  next
    case False
    from join_sep_names_hd [OF False assms] obtain x xs where j: "join_sep (cwd fs) = x # xs" "x \<noteq> CHR ''/''"
      by (cases "join_sep (cwd fs)") auto
    have la: "last (join_sep (cwd fs)) \<noteq> CHR ''/''"
      using False assms by (rule join_sep_names_last)
    have pj: "path_join (getcwd fs) [] = CHR ''/'' # join_sep (cwd fs) @ ''/''"
      using j la by (simp add: path_join_def getcwd_def isabs_def)
    have i: "initial_slashes (CHR ''/'' # join_sep (cwd fs) @ ''/'') = 1"
      using j by (simp add: initial_slashes_def isabs_def)
    have sp: "split_sep (join_sep (cwd fs) @ ''/'') = cwd fs @ [[]]"
      using split_sep_append_sep [of "join_sep (cwd fs)" "[]"] split_join_names [OF False assms]
      by simp
    have "abspath fs [] = replicate 1 (CHR ''/'') @ join_sep (cwd fs)"
      using False by (simp add: abspath_def isabs_def pj normpath_def i sp n Let_def)
    with comps_slashes [OF assms, of 1] show ?thesis by simp
  qed
qed


subsection \<open>Resolving a path\<close>

lemma walk_to_append:
  "walk_to t cur (xs @ ys) = (case walk_to t cur xs of None \<Rightarrow> None | Some loc \<Rightarrow> walk_to t loc ys)"
  by (induction xs arbitrary: cur) (auto split: option.splits node.splits)

lemma walk_to_name:
  "dir_at t loc \<Longrightarrow> valid_name k \<Longrightarrow> walk_to t loc [k] = Some (loc @ [k])"
  by (auto simp: dir_at_def dest: valid_nameD split: option.splits node.splits)

lemma walk_to_name_loc:
  "walk_to t l [k] = Some loc \<Longrightarrow> valid_name k \<Longrightarrow> dir_at t l \<and> loc = l @ [k]"
  by (auto simp: dir_at_def dest: valid_nameD split: option.splits node.splits if_splits)

lemma walk_to_empties:
  "walk_to t l (replicate j []) = Some loc \<Longrightarrow> loc = l"
  by (induction j) (auto split: option.splits node.splits)

lemma walk_to_empties_dir:
  "dir_at t l \<Longrightarrow> walk_to t l (replicate j []) = Some l"
  by (induction j) (auto simp: dir_at_def split: option.splits node.splits)

lemma walk_to_empty_loc:
  "walk_to t l [[]] = Some loc \<Longrightarrow> dir_at t l \<and> loc = l"
  by (auto simp: dir_at_def split: option.splits node.splits)

lemma split_sep_slashes: "split_sep (replicate j (CHR ''/'')) = replicate (Suc j) []"
  by (induction j) simp_all

lemma split_sep_append_slashes:
  "split_sep (a @ replicate j (CHR ''/'')) = split_sep a @ replicate j []"
proof (cases j)
  case 0
  then show ?thesis by simp
next
  case (Suc i)
  have "split_sep (a @ CHR ''/'' # replicate i (CHR ''/'')) = split_sep a @ split_sep (replicate i (CHR ''/''))"
    by (rule split_sep_append_sep)
  with Suc show ?thesis by (simp add: split_sep_slashes)
qed

lemma rstrip_sep_decomp: "\<exists>j. s = rstrip_sep s @ replicate j (CHR ''/'')"
proof (induction s rule: rev_induct)
  case Nil
  then show ?case by (simp add: rstrip_sep_def)
next
  case (snoc c s)
  show ?case
  proof (cases "c = CHR ''/''")
    case True
    from snoc obtain j where j: "s = rstrip_sep s @ replicate j (CHR ''/'')" by blast
    have a: "rstrip_sep (s @ [c]) = rstrip_sep s" using True by (simp add: rstrip_sep_def)
    have "s @ [c] = (rstrip_sep s @ replicate j (CHR ''/'')) @ [c]"
      using arg_cong [OF j, of "\<lambda>x. x @ [c]"] .
    then have "s @ [c] = rstrip_sep s @ replicate (Suc j) (CHR ''/'')"
      using True by (simp add: replicate_append_same)
    then show ?thesis unfolding a by blast
  next
    case False
    then have "rstrip_sep (s @ [c]) = s @ [c]" by (simp add: rstrip_sep_def)
    then have "s @ [c] = rstrip_sep (s @ [c]) @ replicate 0 (CHR ''/'')" by simp
    then show ?thesis by blast
  qed
qed

lemma rstrip_sep_replicate: "rstrip_sep (replicate n (CHR ''/'')) = []"
  by (simp add: rstrip_sep_def)

lemma rstrip_sep_Nil_iff: "(rstrip_sep s = []) = (s = replicate (length s) (CHR ''/''))"
proof
  assume "rstrip_sep s = []"
  with rstrip_sep_decomp [of s] obtain j where j: "s = replicate j (CHR ''/'')" by auto
  have "replicate j (CHR ''/'') = replicate (length (replicate j (CHR ''/''))) (CHR ''/'')" by simp
  then show "s = replicate (length s) (CHR ''/'')" by (simp only: j [symmetric])
next
  assume a: "s = replicate (length s) (CHR ''/'')"
  have "rstrip_sep s = rstrip_sep (replicate (length s) (CHR ''/''))"
    using arg_cong [OF a, of rstrip_sep] .
  then show "rstrip_sep s = []" by (simp only: rstrip_sep_replicate)
qed

lemma resolve_rstrip:
  assumes r: "resolve fs s = Some l" and ne: "rstrip_sep s \<noteq> []"
  shows "resolve fs (rstrip_sep s) = Some l"
proof -
  obtain j where j: "s = rstrip_sep s @ replicate j (CHR ''/'')"
    using rstrip_sep_decomp by blast
  let ?a = "rstrip_sep s"
  let ?base = "if isabs s then [] else cwd fs"
  have "hd s = hd (?a @ replicate j (CHR ''/''))" using arg_cong [OF j, of hd] .
  then have "hd s = hd ?a" using ne by simp
  moreover have "s \<noteq> []" using ne by (auto simp: rstrip_sep_def)
  ultimately have ab: "isabs ?a = isabs s" using ne by (simp add: isabs_def)
  from r have "walk_to (root fs) ?base (split_sep s) = Some l"
    by (auto simp: resolve_def split: if_splits)
  then have "walk_to (root fs) ?base (split_sep ?a @ replicate j []) = Some l"
    using j split_sep_append_slashes [of ?a j] by simp
  then obtain l' where l': "walk_to (root fs) ?base (split_sep ?a) = Some l'"
      "walk_to (root fs) l' (replicate j []) = Some l"
    by (auto simp: walk_to_append split: option.splits)
  from walk_to_empties [OF l'(2)] l'(1) have "walk_to (root fs) ?base (split_sep ?a) = Some l"
    by simp
  with ne ab show ?thesis by (simp add: resolve_def)
qed

lemma resolve_join:
  assumes r: "resolve fs folder = Some loc" and d: "dir_at (root fs) loc" and k: "valid_name k"
  shows "resolve fs (path_join folder k) = Some (loc @ [k])"
proof -
  from r have ne: "folder \<noteq> []" by (auto simp: resolve_def split: if_splits)
  let ?base = "if isabs folder then [] else cwd fs"
  from r ne have w: "walk_to (root fs) ?base (split_sep folder) = Some loc"
    by (simp add: resolve_def)
  have sk: "split_sep k = [k]" using valid_nameD [OF k] by (simp add: split_sep_no_sep)
  show ?thesis
  proof (cases "last folder = CHR ''/''")
    case True
    with ne obtain f where f: "folder = f @ ''/''" by (cases folder rule: rev_cases) auto
    have pj: "path_join folder k = f @ CHR ''/'' # k"
      using True ne f by (simp add: path_join_name [OF k])
    have ab: "isabs (f @ CHR ''/'' # k) = isabs folder"
      using f by (cases f) (simp_all add: isabs_def)
    have "split_sep folder = split_sep f @ [[]]"
      using split_sep_append_sep [of f "[]"] f by simp
    with w obtain l where l: "walk_to (root fs) ?base (split_sep f) = Some l"
        "walk_to (root fs) l [[]] = Some loc"
      by (auto simp: walk_to_append split: option.splits)
    from walk_to_empty_loc [OF l(2)] l(1) have "walk_to (root fs) ?base (split_sep f) = Some loc"
      by simp
    then have "walk_to (root fs) ?base (split_sep (f @ CHR ''/'' # k)) = Some (loc @ [k])"
      using walk_to_name [OF d k] by (simp add: split_sep_append_sep sk walk_to_append)
    with ab show ?thesis by (simp add: pj resolve_def)
  next
    case False
    have pj: "path_join folder k = folder @ CHR ''/'' # k"
      using False ne by (simp add: path_join_name [OF k])
    have ab: "isabs (folder @ CHR ''/'' # k) = isabs folder"
      using ne by (cases folder) (simp_all add: isabs_def)
    have "walk_to (root fs) ?base (split_sep (folder @ CHR ''/'' # k)) = Some (loc @ [k])"
      using w walk_to_name [OF d k] by (simp add: split_sep_append_sep sk walk_to_append)
    with ab show ?thesis by (simp add: pj resolve_def)
  qed
qed


subsection \<open>dirname and basename\<close>

lemma takeWhile_snoc_sep:
  "takeWhile (\<lambda>c. c \<noteq> CHR ''/'') (xs @ [c]) =
     (if CHR ''/'' \<in> set xs \<or> c = CHR ''/'' then takeWhile (\<lambda>c. c \<noteq> CHR ''/'') xs else xs @ [c])"
  by (induction xs) auto

lemma basename_Cons:
  "basename (c # p) = (if CHR ''/'' \<in> set p \<or> c = CHR ''/'' then basename p else c # p)"
  unfolding basename_def using takeWhile_snoc_sep [of "rev p" c] by auto

lemma basename_no_sep: "CHR ''/'' \<notin> set p \<Longrightarrow> basename p = p"
proof -
  assume "CHR ''/'' \<notin> set p"
  then have tw: "takeWhile (\<lambda>c. c \<noteq> CHR ''/'') (rev p) = rev p"
    by (intro takeWhile_eq_all_conv [THEN iffD2]) auto
  show ?thesis unfolding basename_def tw by (rule rev_rev_ident)
qed

lemma basename_last: "basename p = last (split_sep p)"
proof (induction p)
  case Nil
  then show ?case by (simp add: basename_def)
next
  case (Cons c p)
  obtain x xs where S: "split_sep p = x # xs" by (cases "split_sep p") simp_all
  show ?case
  proof (cases "c = CHR ''/''")
    case True
    then have "basename (c # p) = basename p" by (simp only: basename_Cons) simp
    also have "\<dots> = last (split_sep p)" by (rule Cons.IH)
    also have "\<dots> = last (split_sep (c # p))" using True S by simp
    finally show ?thesis .
  next
    case False
    show ?thesis
    proof (cases "CHR ''/'' \<in> set p")
      case True
      then have "tl (split_sep p) \<noteq> []" by (simp add: split_sep_single)
      with S have xs: "xs \<noteq> []" by simp
      have "basename (c # p) = basename p" using True by (simp only: basename_Cons) simp
      also have "\<dots> = last (split_sep p)" by (rule Cons.IH)
      also have "\<dots> = last (split_sep (c # p))" using False S xs by simp
      finally show ?thesis .
    next
      case nsep: False
      then have "split_sep (c # p) = [c # p]" using False by (intro split_sep_no_sep) simp
      moreover have "basename (c # p) = c # p" using nsep False by (intro basename_no_sep) simp
      ultimately show ?thesis by simp
    qed
  qed
qed

lemma dropWhile_rev_name:
  "CHR ''/'' \<notin> set d \<Longrightarrow>
     rev (dropWhile (\<lambda>c. c \<noteq> CHR ''/'') (rev (x @ CHR ''/'' # d))) = x @ ''/''"
  by (simp add: dropWhile_append3 [where y = "CHR ''/''"] dropWhile_append)

lemma dirname_rstrip:
  "dirname p =
     (if rstrip_sep (rev (dropWhile (\<lambda>c. c \<noteq> CHR ''/'') (rev p))) = []
      then rev (dropWhile (\<lambda>c. c \<noteq> CHR ''/'') (rev p))
      else rstrip_sep (rev (dropWhile (\<lambda>c. c \<noteq> CHR ''/'') (rev p))))"
proof -
  define h where "h = rev (dropWhile (\<lambda>c. c \<noteq> CHR ''/'') (rev p))"
  have d: "dirname p = (if h \<noteq> [] \<and> h \<noteq> replicate (length h) (CHR ''/'') then rstrip_sep h else h)"
    by (simp add: dirname_def Let_def h_def)
  have "dirname p = (if rstrip_sep h = [] then h else rstrip_sep h)"
  proof (cases "h = []")
    case True
    then show ?thesis by (simp add: d rstrip_sep_def)
  next
    case False
    with rstrip_sep_Nil_iff [of h] show ?thesis by (simp add: d)
  qed
  then show ?thesis by (simp only: h_def)
qed

lemma resolve_dirname_head:
  assumes r: "resolve fs h = Some l"
  shows "resolve fs (if rstrip_sep h = [] then h else rstrip_sep h) = Some l"
  using r resolve_rstrip [OF r] by simp

lemma start_comps_name:
  assumes cwdn: "list_all valid_name (cwd fs)"
      and r: "resolve fs item = Some iloc"
      and b: "valid_name (basename item)"
  shows "iloc \<noteq> [] \<and> last iloc = basename item
       \<and> filter (\<lambda>x. x \<noteq> []) (split_sep (abspath fs (dirname item))) = butlast iloc"
proof (cases "CHR ''/'' \<in> set item")
  case False
  then have bn: "basename item = item" by (rule basename_no_sep)
  from False have h: "rev (dropWhile (\<lambda>c. c \<noteq> CHR ''/'') (rev item)) = []" by auto
  have dn: "dirname item = []" by (simp add: dirname_rstrip h rstrip_sep_def)
  from b bn have v: "valid_name item" by simp
  then have na: "\<not> isabs item" "item \<noteq> []" using valid_nameD [OF v] by (simp_all add: isabs_def)
  have "split_sep item = [item]" using False by (rule split_sep_no_sep)
  with r na have "walk_to (root fs) (cwd fs) [item] = Some iloc" by (simp add: resolve_def)
  from walk_to_name_loc [OF this v] have "iloc = cwd fs @ [item]" by simp
  with bn dn abspath_empty [OF cwdn] show ?thesis by simp
next
  case True
  then obtain x d where x: "item = x @ CHR ''/'' # d" "CHR ''/'' \<notin> set d"
    using split_list_last [of "CHR ''/''" item] by blast
  let ?h = "x @ ''/''"
  let ?base = "if isabs item then [] else cwd fs"
  have h: "rev (dropWhile (\<lambda>c. c \<noteq> CHR ''/'') (rev item)) = ?h"
    unfolding x(1) using x(2) by (rule dropWhile_rev_name)
  have sp: "split_sep item = split_sep x @ [d]"
    using x by (simp add: split_sep_append_sep split_sep_no_sep)
  then have bn: "basename item = d" by (simp add: basename_last)
  with b have v: "valid_name d" by simp
  from r have "walk_to (root fs) ?base (split_sep item) = Some iloc"
    by (auto simp: resolve_def split: if_splits)
  with sp obtain l where l: "walk_to (root fs) ?base (split_sep x) = Some l"
      "walk_to (root fs) l [d] = Some iloc"
    by (auto simp: walk_to_append split: option.splits)
  from walk_to_name_loc [OF l(2) v] have dl: "dir_at (root fs) l" and il: "iloc = l @ [d]"
    by simp_all
  have ab: "isabs ?h = isabs item" using x(1) by (cases x) (simp_all add: isabs_def)
  have "split_sep ?h = split_sep x @ [[]]" using split_sep_append_sep [of x "[]"] by simp
  then have "walk_to (root fs) ?base (split_sep ?h) = Some l"
    using l(1) walk_to_empties_dir [OF dl, of 1] by (simp add: walk_to_append)
  with ab have rh: "resolve fs ?h = Some l" by (simp add: resolve_def)
  have "dirname item = (if rstrip_sep ?h = [] then ?h else rstrip_sep ?h)"
    by (simp only: dirname_rstrip h)
  with resolve_dirname_head [OF rh] have "resolve fs (dirname item) = Some l" by simp
  from abspath_resolve [OF cwdn this] il bn show ?thesis by simp
qed

lemma dirname_slash:
  assumes "item \<noteq> []" "last item = CHR ''/''"
  shows "dirname item = (if rstrip_sep item = [] then item else rstrip_sep item)"
proof -
  from assms obtain x where x: "item = x @ ''/''" by (cases item rule: rev_cases) auto
  then have h: "rev (dropWhile (\<lambda>c. c \<noteq> CHR ''/'') (rev item)) = item" by simp
  show ?thesis using dirname_rstrip [of item] by (simp only: h)
qed

lemma resolve_dirname_slash:
  assumes r: "resolve fs item = Some iloc" and s: "item \<noteq> []" "last item = CHR ''/''"
  shows "resolve fs (dirname item) = Some iloc"
  using resolve_dirname_head [OF r] dirname_slash [OF s] by simp

lemma start_comps_slash:
  assumes cwdn: "list_all valid_name (cwd fs)"
      and r: "resolve fs item = Some iloc" and s: "item \<noteq> []" "last item = CHR ''/''"
  shows "filter (\<lambda>x. x \<noteq> []) (split_sep (abspath fs (dirname item))) = iloc"
  using abspath_resolve [OF cwdn resolve_dirname_slash [OF r s]] by simp


subsection \<open>relpath and the stored name\<close>

lemma commonprefix_append: "commonprefix xs (xs @ ys) = xs"
  by (induction xs) simp_all

lemma path_join_names:
  assumes "xs \<noteq> []" "list_all valid_name xs" "valid_name k"
  shows "path_join (join_sep xs) k = join_sep (xs @ [k])"
  using assms join_sep_names_hd [of xs] join_sep_names_last [of xs]
  by (simp add: path_join_name join_sep_snoc)

lemma foldl_path_join:
  "xs \<noteq> [] \<Longrightarrow> list_all valid_name xs \<Longrightarrow> list_all valid_name ks \<Longrightarrow>
     foldl path_join (join_sep xs) ks = join_sep (xs @ ks)"
proof (induction ks arbitrary: xs)
  case Nil
  then show ?case by simp
next
  case (Cons k ks)
  from Cons.prems have k: "valid_name k" and ks: "list_all valid_name ks" by simp_all
  have "path_join (join_sep xs) k = join_sep (xs @ [k])"
    using Cons.prems(1,2) k by (rule path_join_names)
  moreover have "foldl path_join (join_sep (xs @ [k])) ks = join_sep ((xs @ [k]) @ ks)"
    using Cons.prems k ks by (intro Cons.IH) simp_all
  ultimately show ?case by simp
qed

lemma relpath_below:
  assumes p: "p \<noteq> []"
      and start: "filter (\<lambda>x. x \<noteq> []) (split_sep (abspath fs start)) = xs"
      and path: "filter (\<lambda>x. x \<noteq> []) (split_sep (abspath fs p)) = xs @ rest"
      and rest: "rest \<noteq> []" "list_all valid_name rest"
  shows "relpath fs p start = Returns (join_sep rest)"
proof -
  obtain k ks where r: "rest = k # ks" using rest(1) by (cases rest) auto
  have "foldl path_join (join_sep [k]) ks = join_sep ([k] @ ks)"
    using rest(2) r by (intro foldl_path_join) simp_all
  then have "foldl path_join k ks = join_sep rest" using r by simp
  with p r show ?thesis
    by (simp add: relpath_def start path commonprefix_append Let_def)
qed

lemma zip_arcname_names:
  assumes "cs \<noteq> []" "list_all valid_name cs"
  shows "zip_arcname (join_sep cs) = Returns (join_sep cs)"
proof -
  from join_sep_names_hd [OF assms] obtain x xs where j: "join_sep cs = x # xs" "x \<noteq> CHR ''/''"
    by (cases "join_sep cs") auto
  have n: "initial_slashes (join_sep cs) = 0" using j by (simp add: initial_slashes_def isabs_def)
  have ne: "join_sep cs \<noteq> []" using j by simp
  have np: "normpath (join_sep cs) = join_sep cs"
    using assms ne by (simp add: normpath_def n split_join_names norm_comps_names Let_def)
  have "lstrip_sep (join_sep cs) = join_sep cs" using j by (simp add: lstrip_sep_def)
  with ne show ?thesis by (simp add: zip_arcname_def np Let_def)
qed

subsection \<open>Walking a directory tree\<close>

lemma write_walk_append:
  "write_walk fs item (xs @ ys) zf =
     (case write_walk fs item xs zf of
        (Some e, zf') \<Rightarrow> (Some e, zf')
      | (None, zf') \<Rightarrow> write_walk fs item ys zf')"
  by (induction xs arbitrary: zf) (auto split: prod.splits option.splits)

lemma wf_entries_member:
  "wf_entries es \<Longrightarrow> (k, n) \<in> set es \<Longrightarrow> valid_name k \<and> wf_node n"
  by (induction es) auto

lemma lookup_child:
  assumes "lookup t loc = Some (Dir ch)" "distinct (map fst ch)" "(k, n) \<in> set ch"
  shows "lookup t (loc @ [k]) = Some n"
  using assms by (simp add: lookup_append)

lemma lookup_prefix_dir:
  assumes "lookup t (xs @ k # ys) = Some n"
  shows "dir_at t xs"
proof -
  from assms obtain m where m: "lookup t xs = Some m" "lookup m (k # ys) = Some n"
    by (auto simp: lookup_append split: option.splits)
  then show ?thesis by (cases m) (simp_all add: dir_at_def)
qed

lemma wf_lookup:
  "wf_node t \<Longrightarrow> lookup t loc = Some n \<Longrightarrow> wf_node n \<and> list_all valid_name loc"
proof (induction t loc rule: lookup.induct)
  case (1 t)
  then show ?case by simp
next
  case (2 r c k ks)
  then show ?case by simp
next
  case (3 ch k ks)
  from "3.prems"(2) obtain t' where t': "map_of ch k = Some t'" "lookup t' ks = Some n"
    by (auto split: option.splits)
  from t'(1) have "(k, t') \<in> set ch" by (rule map_of_SomeD)
  with "3.prems"(1) have "valid_name k" "wf_node t'"
    using wf_entries_member [of ch k t'] by simp_all
  with "3.IH" [OF t'(1) _ t'(2)] show ?case by simp
qed



lemma zf_write_storable:
  assumes st: "stat fs fp = Some (File a c)" and arc: "zip_arcname arc = Returns arc"
  shows "(storable a c \<longrightarrow>
            zf_write fs zf fp arc = Returns (zf\<lparr>zf_entries := zf_entries zf @ [(arc, c)]\<rparr>))
       \<and> (zf_write fs zf fp arc = Returns (zf\<lparr>zf_entries := zf_entries zf @ [(arc, c)]\<rparr>)
            \<or> (\<exists>ex. zf_write fs zf fp arc = Raises ex))"
  by (simp add: zf_write_def st arc storable_def)

lemma write_files_stored:
  assumes cwdn: "list_all valid_name (cwd fs)"
      and start: "filter (\<lambda>x. x \<noteq> []) (split_sep (abspath fs (dirname item))) = xs"
      and res: "resolve fs folder = Some (xs @ rs)"
      and dir: "dir_at (root fs) (xs @ rs)"
      and files: "\<And>k n. (k, n) \<in> set es \<Longrightarrow>
                    valid_name k \<and> lookup (root fs) (xs @ rs @ [k]) = Some n"
  shows "\<exists>err stored rest.
           write_files fs item folder (filenames es) zf =
             (err, zf\<lparr>zf_entries := zf_entries zf @ stored\<rparr>)
         \<and> map (\<lambda>(rel, c). (join_sep (rs @ rel), c)) (own_files es) = stored @ rest
         \<and> (err = None \<longrightarrow> rest = [])
         \<and> (entries_storable es \<longrightarrow> err = None)"
  using files
proof (induction es arbitrary: zf)
  case Nil
  then show ?case by (simp add: filenames_def)
next
  case (Cons e es)
  obtain k n where e: "e = (k, n)" by (cases e)
  have ih: "\<And>zf. \<exists>err stored rest.
           write_files fs item folder (filenames es) zf =
             (err, zf\<lparr>zf_entries := zf_entries zf @ stored\<rparr>)
         \<and> map (\<lambda>(rel, c). (join_sep (rs @ rel), c)) (own_files es) = stored @ rest
         \<and> (err = None \<longrightarrow> rest = [])
         \<and> (entries_storable es \<longrightarrow> err = None)"
    using Cons.prems by (intro Cons.IH) auto
  show ?case
  proof (cases n)
    case (Dir ch)
    with e ih [of zf] show ?thesis by (simp add: filenames_def) blast
  next
    case (File a c)
    let ?fp = "path_join folder k"
    let ?arc = "join_sep (rs @ [k])"
    from Cons.prems [of k n] e have k: "valid_name k"
      and there: "lookup (root fs) (xs @ rs @ [k]) = Some n" by simp_all
    have rfp: "resolve fs ?fp = Some ((xs @ rs) @ [k])"
      using res dir k by (rule resolve_join)
    then have ne: "?fp \<noteq> []" by (auto simp: resolve_def split: if_splits)
    from abspath_resolve [OF cwdn rfp]
    have comps: "filter (\<lambda>x. x \<noteq> []) (split_sep (abspath fs ?fp)) = xs @ (rs @ [k])"
      and "list_all valid_name ((xs @ rs) @ [k])" by simp_all
    then have rsk: "list_all valid_name (rs @ [k])" by simp
    have rel: "relpath fs ?fp (dirname item) = Returns ?arc"
      using ne start comps _ rsk by (rule relpath_below) simp
    have st: "stat fs ?fp = Some (File a c)"
      using rfp there File by (simp add: stat_def)
    have arc: "zip_arcname ?arc = Returns ?arc"
      using rsk by (intro zip_arcname_names) simp_all
    have fn: "filenames (e # es) = k # filenames es" using e File by (simp add: filenames_def)
    have own: "own_files (e # es) = ([k], c) # own_files es" using e File by simp
    have sto: "entries_storable (e # es) = (storable a c \<and> entries_storable es)"
      using e File by simp
    note w = zf_write_storable [OF st arc, of zf]
    show ?thesis
    proof (cases "zf_write fs zf ?fp ?arc")
      case (Raises ex)
      with w have ns: "\<not> storable a c" by auto
      have step: "write_files fs item folder (k # filenames es) zf = (Some ex, zf)"
        by (simp add: rel Raises Let_def)
      have "write_files fs item folder (filenames (e # es)) zf =
                   (Some ex, zf\<lparr>zf_entries := zf_entries zf @ []\<rparr>)"
        unfolding fn step by simp
      moreover have "map (\<lambda>(rel, c). (join_sep (rs @ rel), c)) (own_files (e # es))
          = [] @ map (\<lambda>(rel, c). (join_sep (rs @ rel), c)) (own_files (e # es))" by simp
      moreover have "Some ex = None \<longrightarrow> map (\<lambda>(rel, c). (join_sep (rs @ rel), c)) (own_files (e # es)) = []"
        by simp
      moreover have "entries_storable (e # es) \<longrightarrow> Some ex = None" using ns sto by simp
      ultimately show ?thesis by blast
    next
      case (Returns zf')
      with w have zf': "zf' = zf\<lparr>zf_entries := zf_entries zf @ [(?arc, c)]\<rparr>" by auto
      from ih [of zf'] obtain err stored rest where
        i: "write_files fs item folder (filenames es) zf' =
             (err, zf'\<lparr>zf_entries := zf_entries zf' @ stored\<rparr>)"
           "map (\<lambda>(rel, c). (join_sep (rs @ rel), c)) (own_files es) = stored @ rest"
           "err = None \<longrightarrow> rest = []" "entries_storable es \<longrightarrow> err = None"
        by blast
      have step: "write_files fs item folder (k # filenames es) zf =
              write_files fs item folder (filenames es) zf'"
        by (simp add: rel Returns Let_def)
      have "write_files fs item folder (filenames (e # es)) zf =
                   (err, zf\<lparr>zf_entries := zf_entries zf @ ((?arc, c) # stored)\<rparr>)"
        unfolding fn step i(1) by (simp add: zf')
      moreover have "map (\<lambda>(rel, c). (join_sep (rs @ rel), c)) (own_files (e # es))
          = ((?arc, c) # stored) @ rest"
        by (simp add: own i(2))
      moreover have "entries_storable (e # es) \<longrightarrow> err = None" using i(4) sto by simp
      ultimately show ?thesis using i(3) by blast
    qed
  qed
qed

lemma write_walk_single:
  "write_walk fs item [(folder, subs, names)] zf = write_files fs item folder names zf"
  by (cases "write_files fs item folder names zf") (auto split: option.splits)

lemma stored_seq:
  assumes a: "\<exists>e1 s1 r1. write_walk fs item xs zf = (e1, zf\<lparr>zf_entries := zf_entries zf @ s1\<rparr>)
                \<and> M1 = s1 @ r1 \<and> (e1 = None \<longrightarrow> r1 = []) \<and> (P1 \<longrightarrow> e1 = None)"
      and b: "\<And>zf'. \<exists>e2 s2 r2. write_walk fs item ys zf' = (e2, zf'\<lparr>zf_entries := zf_entries zf' @ s2\<rparr>)
                \<and> M2 = s2 @ r2 \<and> (e2 = None \<longrightarrow> r2 = []) \<and> (P2 \<longrightarrow> e2 = None)"
  shows "\<exists>e s r. write_walk fs item (xs @ ys) zf = (e, zf\<lparr>zf_entries := zf_entries zf @ s\<rparr>)
           \<and> M1 @ M2 = s @ r \<and> (e = None \<longrightarrow> r = []) \<and> (P1 \<and> P2 \<longrightarrow> e = None)"
proof -
  from a obtain e1 s1 r1 where
    a': "write_walk fs item xs zf = (e1, zf\<lparr>zf_entries := zf_entries zf @ s1\<rparr>)"
        "M1 = s1 @ r1" "e1 = None \<longrightarrow> r1 = []" "P1 \<longrightarrow> e1 = None" by blast
  show ?thesis
  proof (cases e1)
    case (Some ex)
    have "write_walk fs item (xs @ ys) zf = (Some ex, zf\<lparr>zf_entries := zf_entries zf @ s1\<rparr>)"
      by (simp add: write_walk_append a'(1) Some)
    moreover have "M1 @ M2 = s1 @ (r1 @ M2)" using a'(2) by simp
    moreover have "P1 \<and> P2 \<longrightarrow> Some ex = None" using a'(4) Some by simp
    ultimately show ?thesis by blast
  next
    case None
    with a'(2,3) have m1: "M1 = s1" by simp
    from b [of "zf\<lparr>zf_entries := zf_entries zf @ s1\<rparr>"] obtain e2 s2 r2 where
      b': "write_walk fs item ys (zf\<lparr>zf_entries := zf_entries zf @ s1\<rparr>) =
             (e2, zf\<lparr>zf_entries := zf_entries zf @ s1 @ s2\<rparr>)"
          "M2 = s2 @ r2" "e2 = None \<longrightarrow> r2 = []" "P2 \<longrightarrow> e2 = None" by auto
    have "write_walk fs item (xs @ ys) zf = (e2, zf\<lparr>zf_entries := zf_entries zf @ (s1 @ s2)\<rparr>)"
      by (simp add: write_walk_append a'(1) None b'(1))
    moreover have "M1 @ M2 = (s1 @ s2) @ r2" using m1 b'(2) by simp
    moreover have "P1 \<and> P2 \<longrightarrow> e2 = None" using b'(4) by simp
    ultimately show ?thesis using b'(3) by blast
  qed
qed


lemma write_walk_stored:
  assumes cwdn: "list_all valid_name (cwd fs)"
      and start: "filter (\<lambda>x. x \<noteq> []) (split_sep (abspath fs (dirname item))) = xs"
  shows "resolve fs folder = Some (xs @ rs) \<Longrightarrow> lookup (root fs) (xs @ rs) = Some t \<Longrightarrow>
         wf_node t \<Longrightarrow>
         \<exists>err stored rest.
           write_walk fs item (walk_tree folder t) zf =
             (err, zf\<lparr>zf_entries := zf_entries zf @ stored\<rparr>)
         \<and> map (\<lambda>(rel, c). (join_sep (rs @ rel), c)) (tree_files t) = stored @ rest
         \<and> (err = None \<longrightarrow> rest = [])
         \<and> (all_storable t \<longrightarrow> err = None)"
    and "resolve fs folder = Some (xs @ rs) \<Longrightarrow> dir_at (root fs) (xs @ rs) \<Longrightarrow>
         (\<And>k n. (k, n) \<in> set es \<Longrightarrow> lookup (root fs) (xs @ rs @ [k]) = Some n) \<Longrightarrow>
         wf_entries es \<Longrightarrow>
         \<exists>err stored rest.
           write_walk fs item (walk_subdirs folder es) zf =
             (err, zf\<lparr>zf_entries := zf_entries zf @ stored\<rparr>)
         \<and> map (\<lambda>(rel, c). (join_sep (rs @ rel), c)) (subdir_files es) = stored @ rest
         \<and> (err = None \<longrightarrow> rest = [])
         \<and> (entries_storable es \<longrightarrow> err = None)"
proof (induction folder t and folder es arbitrary: rs zf and rs zf
       rule: walk_tree_walk_subdirs.induct)
  case (1 folder r c)
  then show ?case by simp
next
  case (2 folder ch)
  from "2.prems"(3) have dist: "distinct (map fst ch)" and wfe: "wf_entries ch" by simp_all
  from "2.prems"(2) have dir: "dir_at (root fs) (xs @ rs)" by (simp add: dir_at_def)
  have child: "\<And>k n. (k, n) \<in> set ch \<Longrightarrow> lookup (root fs) (xs @ rs @ [k]) = Some n"
    using lookup_child [OF "2.prems"(2) dist] by simp
  have files: "\<And>k n. (k, n) \<in> set ch \<Longrightarrow>
      valid_name k \<and> lookup (root fs) (xs @ rs @ [k]) = Some n"
    using child wf_entries_member [OF wfe] by blast
  have own: "\<exists>e1 s1 r1. write_walk fs item [(folder, dirnames ch, filenames ch)] zf =
               (e1, zf\<lparr>zf_entries := zf_entries zf @ s1\<rparr>)
         \<and> map (\<lambda>(rel, c). (join_sep (rs @ rel), c)) (own_files ch) = s1 @ r1
         \<and> (e1 = None \<longrightarrow> r1 = [])
         \<and> (entries_storable ch \<longrightarrow> e1 = None)"
    unfolding write_walk_single
    using cwdn start "2.prems"(1) dir files by (rule write_files_stored)
  have sub: "\<And>zf'. \<exists>e2 s2 r2. write_walk fs item (walk_subdirs folder ch) zf' =
               (e2, zf'\<lparr>zf_entries := zf_entries zf' @ s2\<rparr>)
         \<and> map (\<lambda>(rel, c). (join_sep (rs @ rel), c)) (subdir_files ch) = s2 @ r2
         \<and> (e2 = None \<longrightarrow> r2 = [])
         \<and> (entries_storable ch \<longrightarrow> e2 = None)"
    using "2.prems"(1) dir child wfe by (rule "2.IH")
  from stored_seq [OF own sub]
  show ?case by simp
next
  case (3 folder)
  then show ?case by simp
next
  case (4 folder e es)
  obtain k n where e: "e = (k, n)" by (cases e)
  from "4.prems"(4) e have k: "valid_name k" and wfn: "wf_node n" and wfe: "wf_entries es"
    by simp_all
  have rest: "\<And>zf'. \<exists>e2 s2 r2. write_walk fs item (walk_subdirs folder es) zf' =
               (e2, zf'\<lparr>zf_entries := zf_entries zf' @ s2\<rparr>)
         \<and> map (\<lambda>(rel, c). (join_sep (rs @ rel), c)) (subdir_files es) = s2 @ r2
         \<and> (e2 = None \<longrightarrow> r2 = [])
         \<and> (entries_storable es \<longrightarrow> e2 = None)"
    using "4.prems"(1,2) _ wfe
  proof (rule "4.IH"(2))
    fix k' n' assume "(k', n') \<in> set es"
    then show "lookup (root fs) (xs @ rs @ [k']) = Some n'"
      using "4.prems"(3) by simp
  qed
  show ?case
  proof (cases "is_Dir n")
    case False
    then have "all_storable n \<and> entries_storable es \<longrightarrow> entries_storable es" by simp
    with False e rest [of zf] show ?thesis by simp blast
  next
    case True
    have r: "resolve fs (path_join folder k) = Some (xs @ (rs @ [k]))"
      using resolve_join [OF "4.prems"(1,2) k] by simp
    have there: "lookup (root fs) (xs @ (rs @ [k])) = Some n"
      using "4.prems"(3) [of k n] e by simp
    have "\<exists>err stored rest.
           write_walk fs item (walk_tree (path_join folder (fst e)) (snd e)) zf =
             (err, zf\<lparr>zf_entries := zf_entries zf @ stored\<rparr>)
         \<and> map (\<lambda>(rel, c). (join_sep ((rs @ [k]) @ rel), c)) (tree_files (snd e)) = stored @ rest
         \<and> (err = None \<longrightarrow> rest = [])
         \<and> (all_storable (snd e) \<longrightarrow> err = None)"
      using True e r there wfn by (intro "4.IH"(1)) simp_all
    then have this_dir: "\<exists>e1 s1 r1.
           write_walk fs item (walk_tree (path_join folder k) n) zf =
             (e1, zf\<lparr>zf_entries := zf_entries zf @ s1\<rparr>)
         \<and> map (\<lambda>(rel, c). (join_sep (rs @ rel), c)) (map (\<lambda>(rel, c). (k # rel, c)) (tree_files n))
              = s1 @ r1
         \<and> (e1 = None \<longrightarrow> r1 = [])
         \<and> (all_storable n \<longrightarrow> e1 = None)"
      using e by (simp add: case_prod_unfold comp_def)
    have ws: "walk_subdirs folder (e # es) = walk_tree (path_join folder k) n @ walk_subdirs folder es"
      using True e by simp
    have sf: "subdir_files (e # es) = map (\<lambda>(rel, c). (k # rel, c)) (tree_files n) @ subdir_files es"
      using True e by simp
    have st: "entries_storable (e # es) = (all_storable n \<and> entries_storable es)"
      using e by simp
    from stored_seq [OF this_dir rest]
    show ?thesis unfolding ws sf st by simp
  qed
qed


subsection \<open>One source item\<close>

lemma dir_at_butlast: "dir_at t cur \<Longrightarrow> dir_at t (butlast cur)"
proof (cases "cur = []")
  case True
  assume "dir_at t cur" with True show ?thesis by simp
next
  case False
  assume "dir_at t cur"
  then obtain ch where "lookup t cur = Some (Dir ch)"
    by (auto simp: dir_at_def split: option.splits node.splits)
  then show ?thesis using False by (rule lookup_parent)
qed

lemma walk_to_last_step:
  "walk_to t cur cs = Some loc \<Longrightarrow> cs \<noteq> [] \<Longrightarrow>
     dir_at t loc \<or> (loc \<noteq> [] \<and> dir_at t (butlast loc) \<and> last loc = last cs)"
proof (induction cs arbitrary: cur)
  case Nil
  then show ?case by simp
next
  case (Cons c cs)
  from Cons.prems(1) have d: "dir_at t cur"
    by (auto simp: dir_at_def split: option.splits node.splits)
  then obtain ch where ch: "lookup t cur = Some (Dir ch)"
    by (auto simp: dir_at_def split: option.splits node.splits)
  show ?case
  proof (cases "cs = []")
    case True
    with Cons.prems(1) ch d dir_at_butlast [OF d] show ?thesis
      by (auto split: if_splits)
  next
    case False
    from Cons.prems(1) ch obtain cur' where "walk_to t cur' cs = Some loc"
      by (auto split: if_splits)
    from Cons.IH [OF this False] False show ?thesis by simp
  qed
qed

lemma resolve_last_step:
  assumes "resolve fs p = Some loc" and "\<not> dir_at (root fs) loc"
  shows "loc \<noteq> [] \<and> dir_at (root fs) (butlast loc) \<and> last loc = basename p"
proof -
  from assms(1) obtain cur where "walk_to (root fs) cur (split_sep p) = Some loc"
    by (auto simp: resolve_def split: if_splits)
  from walk_to_last_step [OF this] assms(2) show ?thesis
    by (simp add: basename_last)
qed

lemma file_basename_valid:
  assumes wf: "wf_fs fs" and st: "stat fs item = Some (File r c)"
  shows "valid_name (basename item)"
proof -
  from st obtain loc where l: "resolve fs item = Some loc" "lookup (root fs) loc = Some (File r c)"
    by (auto simp: stat_def split: option.splits)
  from l(2) have "\<not> dir_at (root fs) loc" by (simp add: dir_at_def)
  from resolve_last_step [OF l(1) this] have ne: "loc \<noteq> []" and la: "last loc = basename item"
    by simp_all
  from wf have "wf_node (root fs)" by (simp add: wf_fs_def)
  from wf_lookup [OF this l(2)] have "list_all valid_name loc" by simp
  with ne have "valid_name (last loc)" by (simp add: list_all_iff)
  with la show ?thesis by simp
qed

lemma zf_write_file:
  assumes wf: "wf_fs fs" and st: "stat fs item = Some (File a c)" and sto: "storable a c"
  shows "zf_write fs zf item (basename item) =
           Returns (zf\<lparr>zf_entries := zf_entries zf @ [(basename item, c)]\<rparr>)"
proof -
  have "valid_name (basename item)" using wf st by (rule file_basename_valid)
  then have "zip_arcname (join_sep [basename item]) = Returns (join_sep [basename item])"
    by (intro zip_arcname_names) simp_all
  then have "zip_arcname (basename item) = Returns (basename item)" by simp
  from zf_write_storable [OF st this, of zf] sto show ?thesis by simp
qed

lemma write_walk_item:
  assumes wf: "wf_fs fs" and st: "stat fs item = Some (Dir ch)"
      and rs: "valid_name (basename item) \<and> rs = [basename item] \<or> last item = CHR ''/'' \<and> rs = []"
  shows "\<exists>err stored rest.
           write_walk fs item (os_walk fs item) zf =
             (err, zf\<lparr>zf_entries := zf_entries zf @ stored\<rparr>)
         \<and> map (\<lambda>(rel, c). (join_sep (rs @ rel), c)) (tree_files (Dir ch)) = stored @ rest
         \<and> (err = None \<longrightarrow> rest = [])
         \<and> (all_storable (Dir ch) \<longrightarrow> err = None)"
proof -
  from wf have cwdn: "list_all valid_name (cwd fs)" and wfr: "wf_node (root fs)"
    by (simp_all add: wf_fs_def)
  from st obtain iloc where r: "resolve fs item = Some iloc"
    and l: "lookup (root fs) iloc = Some (Dir ch)"
    by (auto simp: stat_def split: option.splits)
  from r have ne: "item \<noteq> []" by (auto simp: resolve_def split: if_splits)
  have wft: "wf_node (Dir ch)" using wf_lookup [OF wfr l] by simp
  have "\<exists>xs. filter (\<lambda>x. x \<noteq> []) (split_sep (abspath fs (dirname item))) = xs \<and> iloc = xs @ rs"
  proof (cases "last item = CHR ''/''")
    case True
    then have "basename item = []" using ne by (cases item rule: rev_cases) (simp_all add: basename_def)
    with rs True have "rs = []" by (auto simp: valid_name_def)
    with start_comps_slash [OF cwdn r ne True] show ?thesis by simp
  next
    case False
    with rs have b: "valid_name (basename item)" and rs': "rs = [basename item]" by simp_all
    from start_comps_name [OF cwdn r b] rs' show ?thesis
      by (metis append_butlast_last_id)
  qed
  then obtain xs where
    start: "filter (\<lambda>x. x \<noteq> []) (split_sep (abspath fs (dirname item))) = xs"
    and il: "iloc = xs @ rs" by blast
  have "\<exists>err stored rest.
           write_walk fs item (walk_tree item (Dir ch)) zf =
             (err, zf\<lparr>zf_entries := zf_entries zf @ stored\<rparr>)
         \<and> map (\<lambda>(rel, c). (join_sep (rs @ rel), c)) (tree_files (Dir ch)) = stored @ rest
         \<and> (err = None \<longrightarrow> rest = [])
         \<and> (all_storable (Dir ch) \<longrightarrow> err = None)"
    using cwdn start _ _ wft
  proof (rule write_walk_stored(1))
    show "resolve fs item = Some (xs @ rs)" using r il by simp
    show "lookup (root fs) (xs @ rs) = Some (Dir ch)" using l il by simp
  qed
  then show ?thesis by (simp add: os_walk_def st)
qed

lemma add_items_append:
  "add_items fs (xs @ ys) zf out =
     (case add_items fs xs zf out of
        (Some e, zf', out') \<Rightarrow> (Some e, zf', out')
      | (None, zf', out') \<Rightarrow> add_items fs ys zf' out')"
  by (induction xs arbitrary: zf out) (auto split: result.splits prod.splits option.splits)

lemma zf_self: "\<exists>post. zf = zf\<lparr>zf_entries := zf_entries zf @ post\<rparr>"
  by (rule exI [of _ "[]"]) simp

lemma zf_write_extends:
  "zf_write fs zf f a = Returns zf' \<Longrightarrow> \<exists>post. zf' = zf\<lparr>zf_entries := zf_entries zf @ post\<rparr>"
  by (auto simp: zf_write_def split: option.splits result.splits node.splits if_splits)

lemma write_files_extends:
  "\<exists>post. snd (write_files fs item folder names zf) = zf\<lparr>zf_entries := zf_entries zf @ post\<rparr>"
proof (induction names arbitrary: zf)
  case Nil
  show ?case by (simp add: zf_self)
next
  case (Cons k names)
  have self: "zf = zf\<lparr>zf_entries := zf_entries zf @ []\<rparr>" by simp
  show ?case
  proof (cases "relpath fs (path_join folder k) (dirname item)")
    case (Raises e)
    then show ?thesis by (simp add: Let_def zf_self)
  next
    case (Returns arc)
    show ?thesis
    proof (cases "zf_write fs zf (path_join folder k) arc")
      case r: (Raises e)
      with Returns show ?thesis by (simp add: Let_def zf_self)
    next
      case w: (Returns zf')
      from zf_write_extends [OF w] obtain p1 where p1: "zf' = zf\<lparr>zf_entries := zf_entries zf @ p1\<rparr>"
        by blast
      from Cons [of zf'] obtain p2 where
        "snd (write_files fs item folder names zf') = zf'\<lparr>zf_entries := zf_entries zf' @ p2\<rparr>"
        by blast
      with p1 have "snd (write_files fs item folder names zf') =
          zf\<lparr>zf_entries := zf_entries zf @ (p1 @ p2)\<rparr>" by simp
      with Returns w show ?thesis by (simp add: Let_def) blast
    qed
  qed
qed

lemma write_walk_extends:
  "\<exists>post. snd (write_walk fs item triples zf) = zf\<lparr>zf_entries := zf_entries zf @ post\<rparr>"
proof (induction triples arbitrary: zf)
  case Nil
  show ?case by (simp add: zf_self)
next
  case (Cons x triples)
  obtain folder subs names where x: "x = (folder, subs, names)" by (cases x)
  obtain e zf' where w: "write_files fs item folder names zf = (e, zf')"
    by (cases "write_files fs item folder names zf")
  from write_files_extends [of fs item folder names zf] w obtain p1 where
    p1: "zf' = zf\<lparr>zf_entries := zf_entries zf @ p1\<rparr>" by auto
  show ?case
  proof (cases e)
    case (Some ex)
    with x w p1 show ?thesis by simp blast
  next
    case None
    from Cons [of zf'] obtain p2 where
      "snd (write_walk fs item triples zf') = zf'\<lparr>zf_entries := zf_entries zf' @ p2\<rparr>"
      by blast
    with p1 have "snd (write_walk fs item triples zf') =
        zf\<lparr>zf_entries := zf_entries zf @ (p1 @ p2)\<rparr>" by simp
    with x w None show ?thesis by simp blast
  qed
qed

lemma add_items_extends:
  "\<exists>post. fst (snd (add_items fs items zf out)) = zf\<lparr>zf_entries := zf_entries zf @ post\<rparr>"
proof (induction items arbitrary: zf out)
  case Nil
  show ?case by (simp add: zf_self)
next
  case (Cons item items)
  have self: "zf = zf\<lparr>zf_entries := zf_entries zf @ []\<rparr>" by simp
  have cont: "\<And>zf' out' p1. zf' = zf\<lparr>zf_entries := zf_entries zf @ p1\<rparr> \<Longrightarrow>
      \<exists>post. fst (snd (add_items fs items zf' out')) = zf\<lparr>zf_entries := zf_entries zf @ post\<rparr>"
  proof -
    fix zf' :: zipfile and out' p1
    assume p1: "zf' = zf\<lparr>zf_entries := zf_entries zf @ p1\<rparr>"
    from Cons [of zf' out'] obtain p2 where
      "fst (snd (add_items fs items zf' out')) = zf'\<lparr>zf_entries := zf_entries zf' @ p2\<rparr>"
      by blast
    with p1 have "fst (snd (add_items fs items zf' out')) =
        zf\<lparr>zf_entries := zf_entries zf @ (p1 @ p2)\<rparr>" by simp
    then show "\<exists>post. fst (snd (add_items fs items zf' out')) = zf\<lparr>zf_entries := zf_entries zf @ post\<rparr>"
      by blast
  qed
  show ?case
  proof (cases "isfile fs item")
    case True
    show ?thesis
    proof (cases "zf_write fs zf item (basename item)")
      case (Raises e)
      with True show ?thesis by (simp add: zf_self)
    next
      case (Returns zf')
      from zf_write_extends [OF Returns] obtain p1 where "zf' = zf\<lparr>zf_entries := zf_entries zf @ p1\<rparr>"
        by blast
      from cont [OF this] True Returns show ?thesis by simp
    qed
  next
    case False
    show ?thesis
    proof (cases "isdir fs item")
      case nd: False
      from cont [OF self] False nd show ?thesis by simp
    next
      case True
      obtain e zf' where w: "write_walk fs item (os_walk fs item) zf = (e, zf')"
        by (cases "write_walk fs item (os_walk fs item) zf")
      from write_walk_extends [of fs item "os_walk fs item" zf] w obtain p1 where
        p1: "zf' = zf\<lparr>zf_entries := zf_entries zf @ p1\<rparr>" by auto
      show ?thesis
      proof (cases e)
        case (Some ex)
        with False True w p1 show ?thesis by simp blast
      next
        case None
        from cont [OF p1] False True w None show ?thesis by simp
      qed
    qed
  qed
qed


lemma add_items_spec:
  assumes wf: "wf_fs fs"
  shows "\<forall>item\<in>set items. isdir fs item \<longrightarrow> valid_name (basename item) \<Longrightarrow>
         \<forall>item\<in>set items. \<forall>t. stat fs item = Some t \<longrightarrow> all_storable t \<Longrightarrow>
         \<exists>out'. add_items fs items zf out =
           (None, zf\<lparr>zf_entries := zf_entries zf @ concat (map (spec_entries fs) items)\<rparr>, out')"
proof (induction items arbitrary: zf out)
  case Nil
  then show ?case by simp
next
  case (Cons item items)
  have ih: "\<And>zf out. \<exists>out'. add_items fs items zf out =
           (None, zf\<lparr>zf_entries := zf_entries zf @ concat (map (spec_entries fs) items)\<rparr>, out')"
    using Cons.prems by (intro Cons.IH) simp_all
  show ?case
  proof (cases "stat fs item")
    case None
    then have "\<not> isfile fs item" "\<not> isdir fs item" "spec_entries fs item = []"
      by (simp_all add: isfile_def isdir_def spec_entries_def)
    with ih [of zf out] show ?thesis by simp
  next
    case (Some t)
    with Cons.prems(2) have sto: "all_storable t" by simp
    show ?thesis
    proof (cases t)
      case (File a c)
      with Some have st: "stat fs item = Some (File a c)" by simp
      then have f: "isfile fs item" and sp: "spec_entries fs item = [(basename item, c)]"
        by (simp_all add: isfile_def spec_entries_def)
      from sto File have "storable a c" by simp
      note w = zf_write_file [OF wf st this]
      from ih [of "zf\<lparr>zf_entries := zf_entries zf @ [(basename item, c)]\<rparr>"
                  "out @ [Print (Msg_added_file item)]"]
      show ?thesis
        by (simp add: f sp w)
    next
      case (Dir ch)
      with Some have st: "stat fs item = Some (Dir ch)" by simp
      then have nf: "\<not> isfile fs item" and d: "isdir fs item"
        by (simp_all add: isfile_def isdir_def)
      with Cons.prems(1) have b: "valid_name (basename item)" by simp
      from st obtain iloc where r: "resolve fs item = Some iloc"
        by (auto simp: stat_def split: option.splits)
      from wf have cwdn: "list_all valid_name (cwd fs)" by (simp add: wf_fs_def)
      from start_comps_name [OF cwdn r b] r have on: "own_name fs item = basename item"
        by (simp add: own_name_def)
      have sp: "spec_entries fs item =
          map (\<lambda>(rel, c). (join_sep ([basename item] @ rel), c)) (tree_files (Dir ch))"
        by (simp add: spec_entries_def st on)
      from write_walk_item [OF wf st, of "[basename item]" zf] b sto Dir
      have ww: "write_walk fs item (os_walk fs item) zf =
           (None, zf\<lparr>zf_entries := zf_entries zf @
                    map (\<lambda>(rel, c). (join_sep ([basename item] @ rel), c)) (tree_files (Dir ch))\<rparr>)"
        by auto
      from ih [of "zf\<lparr>zf_entries := zf_entries zf @
                    map (\<lambda>(rel, c). (join_sep ([basename item] @ rel), c)) (tree_files (Dir ch))\<rparr>"
                  "out @ [Print (Msg_added_dir item)]"]
      show ?thesis
        by (simp add: nf d ww sp)
    qed
  qed
qed

lemma set_content_File: "\<exists>r. set_content y old c = File r c"
  by (auto simp: set_content_def split: option.splits node.splits)

lemma resolve_put_file:
  "\<not> dir_at (root fs) loc \<Longrightarrow>
     resolve (fs\<lparr>root := put_at (root fs) loc (Some (set_content y old c))\<rparr>) p = resolve fs p"
  by (rule resolve_put) auto

lemma dir_at_put_file:
  "\<not> dir_at t loc \<Longrightarrow> dir_at (put_at t loc (Some (set_content y old c))) q = dir_at t q"
  by (rule dir_at_put) auto

lemma create_archive:
  assumes op: "zip_open (disk w) name = Returns (zf, fs1)"
      and items: "add_items fs1 items zf [] = (err, zf\<lparr>zf_entries := es\<rparr>, out)"
  shows "fst (create_unencrypted_zip items name w) = (err = None)
       \<and> (\<exists>r. stat (disk (snd (create_unencrypted_zip items name w))) name
                 = Some (File r (Archive es)))"
proof -
  let ?fs = "disk w"
  from zip_open_Returns [OF op] obtain loc where
    l: "resolve ?fs name = Some loc" "\<not> dir_at (root ?fs) loc"
       "zf = \<lparr>zf_location = loc, zf_entries = []\<rparr>"
       "fs1 = ?fs\<lparr>root := put_at (root ?fs) loc
                 (Some (set_content (clock_year ?fs) (lookup (root ?fs) loc) Unfinished))\<rparr>"
    by blast
  from resolve_last_step [OF l(1,2)] have ne: "loc \<noteq> []" and par: "dir_at (root ?fs) (butlast loc)"
    by simp_all
  have res1: "resolve fs1 name = Some loc"
    unfolding l(4) using resolve_put_file [OF l(2)] l(1) by simp
  have dir1: "\<And>q. dir_at (root fs1) q = dir_at (root ?fs) q"
    unfolding l(4) using dir_at_put_file [OF l(2)] by simp
  let ?new = "set_content (clock_year fs1) (lookup (root fs1) loc) (Archive es)"
  let ?fs2 = "fs1\<lparr>root := put_at (root fs1) loc (Some ?new)\<rparr>"
  have nd1: "\<not> dir_at (root fs1) loc" using l(2) by (simp add: dir1)
  have res2: "resolve ?fs2 name = Some loc"
    using resolve_put_file [OF nd1] res1 by simp
  have "lookup (put_at (root fs1) loc (Some ?new)) loc = Some ?new"
    using ne par by (intro lookup_put_same) (simp_all add: dir1)
  with res2 have st: "stat ?fs2 name = Some ?new" by (simp add: stat_def)
  obtain r where r: "?new = File r (Archive es)"
    using set_content_File by blast
  have cl: "zip_close fs1 (zf\<lparr>zf_entries := es\<rparr>) = ?fs2"
    by (simp add: zip_close_def l(3))
  have c: "disk (snd (create_unencrypted_zip items name w)) = ?fs2
      \<and> fst (create_unencrypted_zip items name w) = (err = None)"
    using op items cl by (cases err) (simp_all add: create_unencrypted_zip_def Let_def)
  show ?thesis
    using st r by (simp add: c)
qed


section \<open>The entries of the archive\<close>

text \<open>
  Claim C3, as the script has it. Let \<open>fs1\<close> be the disk as the loop over the source
  items sees it, with the archive file just opened. If the tree is a real one, the path
  of every item that is a directory ends in a name (not in a separator, \<^verbatim>\<open>.\<close> or
  \<^verbatim>\<open>..\<close>), and every file of the items can be stored, then the archive step succeeds
  and the archive on disk holds exactly the entries of \<open>spec_entries\<close>, item by item
  and in order: a regular file under its base name, every file of a directory tree
  under its path relative to the parent of the directory, nothing for an item that is
  neither, and nothing else.
\<close>

theorem archive_holds_spec_entries:
  assumes op: "zip_open (disk w) name = Returns (zf, fs1)"
      and wf: "wf_fs fs1"
      and dirs: "\<forall>item\<in>set items. isdir fs1 item \<longrightarrow> valid_name (basename item)"
      and sto: "\<forall>item\<in>set items. \<forall>t. stat fs1 item = Some t \<longrightarrow> all_storable t"
  shows "fst (create_unencrypted_zip items name w) = True
       \<and> (\<exists>r. stat (disk (snd (create_unencrypted_zip items name w))) name
                 = Some (File r (Archive (concat (map (spec_entries fs1) items)))))"
proof -
  from zip_open_Returns [OF op] have z: "zf_entries zf = []" by auto
  from add_items_spec [OF wf dirs sto, of zf "[]"] obtain out where
    "add_items fs1 items zf [] =
       (None, zf\<lparr>zf_entries := zf_entries zf @ concat (map (spec_entries fs1) items)\<rparr>, out)"
    by blast
  then have "add_items fs1 items zf [] =
       (None, zf\<lparr>zf_entries := concat (map (spec_entries fs1) items)\<rparr>, out)"
    by (simp add: z)
  from create_archive [OF op this] show ?thesis by simp
qed

theorem archive_holds_spec_entries_witness:
  "\<exists>r. stat (disk (snd (create_unencrypted_zip [''f.log'', ''../u/data/sub'', ''data'', ''nothing'']
            ''b.zip'' (example_world example_disk)))) ''b.zip''
     = Some (File r (Archive [(''f.log'', Plain ''log''), (''sub/b.txt'', Plain ''bye''),
                              (''data/a.txt'', Plain ''hello''), (''data/sub/b.txt'', Plain ''bye'')]))"
proof -
  let ?zf = "\<lparr>zf_location = [''home'', ''u'', ''b.zip''], zf_entries = []\<rparr>"
  let ?fs1 = "example_disk\<lparr>root := put_at (root example_disk) [''home'', ''u'', ''b.zip'']
                 (Some (File \<lparr>readable = True, mtime_year = 2024\<rparr> Unfinished))\<rparr>"
  let ?items = "[''f.log'', ''../u/data/sub'', ''data'', ''nothing'']"
  let ?sub = "Dir [(''b.txt'', File (file_attrs True) (Plain ''bye''))]"
  have op: "zip_open (disk (example_world example_disk)) ''b.zip'' = Returns (?zf, ?fs1)"
    by code_simp
  have wf: "wf_fs ?fs1" by code_simp
  have dirs: "\<forall>item\<in>set ?items. isdir ?fs1 item \<longrightarrow> valid_name (basename item)" by code_simp
  have st: "stat ?fs1 ''f.log'' = Some (File (file_attrs True) (Plain ''log''))"
    "stat ?fs1 ''../u/data/sub'' = Some ?sub"
    "stat ?fs1 ''data'' = Some (Dir [(''a.txt'', File (file_attrs True) (Plain ''hello'')), (''sub'', ?sub)])"
    "stat ?fs1 ''nothing'' = None"
    by code_simp+
  have sto: "\<forall>item\<in>set ?items. \<forall>t. stat ?fs1 item = Some t \<longrightarrow> all_storable t"
    by (simp add: st storable_def file_attrs_def)
  have es: "concat (map (spec_entries ?fs1) ?items) =
      [(''f.log'', Plain ''log''), (''sub/b.txt'', Plain ''bye''),
       (''data/a.txt'', Plain ''hello''), (''data/sub/b.txt'', Plain ''bye'')]"
    by code_simp
  from archive_holds_spec_entries [OF op wf dirs sto]
  have "\<exists>r. stat (disk (snd (create_unencrypted_zip ?items ''b.zip'' (example_world example_disk))))
            ''b.zip'' = Some (File r (Archive (concat (map (spec_entries ?fs1) ?items))))"
    by (rule conjunct2)
  then show ?thesis by (simp only: es)
qed

text \<open>
  Claim C3 as stated covers every list of source items. For a directory written with a
  trailing separator the stored paths do not start with the directory's own name: here
  the files of \<^verbatim>\<open>data/\<close> are stored as \<^verbatim>\<open>a.txt\<close> and \<^verbatim>\<open>sub/b.txt\<close>, while their paths
  relative to the parent of the directory are \<^verbatim>\<open>data/a.txt\<close> and \<^verbatim>\<open>data/sub/b.txt\<close>.
\<close>

theorem trailing_separator_not_parent_relative:
  "isdir (disk (example_world example_disk)) ''data/''
   \<and> stat (disk (snd (create_unencrypted_zip [''data/''] ''b.zip'' (example_world example_disk)))) ''b.zip''
      = Some (File \<lparr>readable = True, mtime_year = 2024\<rparr>
                (Archive [(''a.txt'', Plain ''hello''), (''sub/b.txt'', Plain ''bye'')]))
   \<and> spec_entries (disk (example_world example_disk)) ''data/''
      = [(''data/a.txt'', Plain ''hello''), (''data/sub/b.txt'', Plain ''bye'')]"
  by code_simp

text \<open>
  Claim C10. Take a source item that ends with a separator and is a directory, with the
  tree \<open>Dir ch\<close>, on a real disk. Then \<^verbatim>\<open>dirname\<close> of the item is the item without its
  trailing separators (or the item, if it has nothing else), which is the same
  directory, so \<^verbatim>\<open>relpath\<close> gives every file its path relative to the directory, not
  to its parent. The walk of lines 35 to 39 adds the files of the tree under these paths, in
  order, to whatever archive it is given, and stops at the first file that cannot be
  added; it adds them all when every file can be stored. The paths relative to the
  parent, the names of \<open>spec_entries\<close>, have the directory's own name in front. In a
  run of the archive step on any list of items in which the loop reaches the item (the
  archive was opened and the items before it were added), the archive on disk holds
  the entries of the items before it, then these, then what the later items add.
\<close>

theorem trailing_separator_drops_directory_name:
  assumes wf: "wf_fs fs"
      and slash: "last item = CHR ''/''"
      and dir: "stat fs item = Some (Dir ch)"
  shows "dirname item = (if rstrip_sep item = [] then item else rstrip_sep item)
       \<and> stat fs (dirname item) = Some (Dir ch)
       \<and> spec_entries fs item =
           map (\<lambda>(rel, c). (join_sep (own_name fs item # rel), c)) (tree_files (Dir ch))
       \<and> (\<exists>err stored rest.
             write_walk fs item (os_walk fs item) zf =
               (err, zf\<lparr>zf_entries := zf_entries zf @ stored\<rparr>)
           \<and> map (\<lambda>(rel, c). (join_sep rel, c)) (tree_files (Dir ch)) = stored @ rest
           \<and> (err = None \<longrightarrow> rest = [])
           \<and> (all_storable (Dir ch) \<longrightarrow> err = None))
       \<and> (zip_open (disk w) name = Returns (zf0, fs) \<and> add_items fs xs zf0 [] = (None, zf1, out1) \<longrightarrow>
            (\<exists>r stored rest post.
               map (\<lambda>(rel, c). (join_sep rel, c)) (tree_files (Dir ch)) = stored @ rest
             \<and> (all_storable (Dir ch) \<longrightarrow> rest = [])
             \<and> stat (disk (snd (create_unencrypted_zip (xs @ item # ys) name w))) name
                 = Some (File r (Archive (zf_entries zf1 @ stored @ post)))))"
proof (intro conjI impI)
  from dir obtain iloc where r: "resolve fs item = Some iloc"
    and l: "lookup (root fs) iloc = Some (Dir ch)"
    by (auto simp: stat_def split: option.splits)
  from r have ne: "item \<noteq> []" by (auto simp: resolve_def split: if_splits)
  from ne slash
  show "dirname item = (if rstrip_sep item = [] then item else rstrip_sep item)"
    by (rule dirname_slash)
  from resolve_dirname_slash [OF r ne slash] l
  show "stat fs (dirname item) = Some (Dir ch)" by (simp add: stat_def)
  show "spec_entries fs item =
      map (\<lambda>(rel, c). (join_sep (own_name fs item # rel), c)) (tree_files (Dir ch))"
    by (simp add: spec_entries_def dir)
  have walk: "\<And>zf. \<exists>err stored rest.
             write_walk fs item (os_walk fs item) zf =
               (err, zf\<lparr>zf_entries := zf_entries zf @ stored\<rparr>)
           \<and> map (\<lambda>(rel, c). (join_sep rel, c)) (tree_files (Dir ch)) = stored @ rest
           \<and> (err = None \<longrightarrow> rest = [])
           \<and> (all_storable (Dir ch) \<longrightarrow> err = None)"
    using write_walk_item [OF wf dir, of "[]"] slash by simp
  from walk [of zf]
  show "\<exists>err stored rest.
             write_walk fs item (os_walk fs item) zf =
               (err, zf\<lparr>zf_entries := zf_entries zf @ stored\<rparr>)
           \<and> map (\<lambda>(rel, c). (join_sep rel, c)) (tree_files (Dir ch)) = stored @ rest
           \<and> (err = None \<longrightarrow> rest = [])
           \<and> (all_storable (Dir ch) \<longrightarrow> err = None)" .
  assume run: "zip_open (disk w) name = Returns (zf0, fs) \<and> add_items fs xs zf0 [] = (None, zf1, out1)"
  then have op: "zip_open (disk w) name = Returns (zf0, fs)"
    and before: "add_items fs xs zf0 [] = (None, zf1, out1)" by simp_all
  from add_items_extends [of fs xs zf0 "[]"] before obtain p0 where
    p0: "zf1 = zf0\<lparr>zf_entries := zf_entries zf0 @ p0\<rparr>" by auto
  from walk [of zf1] obtain err stored rest where
    w: "write_walk fs item (os_walk fs item) zf1 =
               (err, zf1\<lparr>zf_entries := zf_entries zf1 @ stored\<rparr>)"
       "map (\<lambda>(rel, c). (join_sep rel, c)) (tree_files (Dir ch)) = stored @ rest"
       "err = None \<longrightarrow> rest = []" "all_storable (Dir ch) \<longrightarrow> err = None"
    by blast
  from dir have nf: "\<not> isfile fs item" and d: "isdir fs item"
    by (simp_all add: isfile_def isdir_def)
  let ?zf2 = "zf1\<lparr>zf_entries := zf_entries zf1 @ stored\<rparr>"
  have "\<exists>e post out. add_items fs (item # ys) zf1 out1 =
          (e, ?zf2\<lparr>zf_entries := zf_entries ?zf2 @ post\<rparr>, out)"
  proof (cases err)
    case (Some ex)
    have "add_items fs (item # ys) zf1 out1 = (Some ex, ?zf2\<lparr>zf_entries := zf_entries ?zf2 @ []\<rparr>, out1)"
      using nf d w(1) Some by simp
    then show ?thesis by blast
  next
    case None
    obtain e Z out where a: "add_items fs ys ?zf2 (out1 @ [Print (Msg_added_dir item)]) = (e, Z, out)"
      by (cases "add_items fs ys ?zf2 (out1 @ [Print (Msg_added_dir item)])")
    from add_items_extends [of fs ys ?zf2 "out1 @ [Print (Msg_added_dir item)]"] a obtain post where
      "Z = ?zf2\<lparr>zf_entries := zf_entries ?zf2 @ post\<rparr>" by auto
    with a have "add_items fs (item # ys) zf1 out1 =
        (e, ?zf2\<lparr>zf_entries := zf_entries ?zf2 @ post\<rparr>, out)"
      using nf d w(1) None by simp
    then show ?thesis by blast
  qed
  then obtain e post out where
    "add_items fs (item # ys) zf1 out1 = (e, ?zf2\<lparr>zf_entries := zf_entries ?zf2 @ post\<rparr>, out)"
    by blast
  then have "add_items fs (xs @ item # ys) zf0 [] =
      (e, zf0\<lparr>zf_entries := zf_entries zf1 @ stored @ post\<rparr>, out)"
    using before p0 by (simp add: add_items_append)
  from create_archive [OF op this] obtain r where
    "stat (disk (snd (create_unencrypted_zip (xs @ item # ys) name w))) name
       = Some (File r (Archive (zf_entries zf1 @ stored @ post)))" by blast
  with w(2,3,4) show "\<exists>r stored rest post.
               map (\<lambda>(rel, c). (join_sep rel, c)) (tree_files (Dir ch)) = stored @ rest
             \<and> (all_storable (Dir ch) \<longrightarrow> rest = [])
             \<and> stat (disk (snd (create_unencrypted_zip (xs @ item # ys) name w))) name
                 = Some (File r (Archive (zf_entries zf1 @ stored @ post)))"
    by blast
qed


theorem trailing_separator_drops_directory_name_witness:
  "dirname ''data/'' = ''data''
   \<and> stat (example_disk\<lparr>root := put_at (root example_disk) [''home'', ''u'', ''b.zip'']
                 (Some (File \<lparr>readable = True, mtime_year = 2024\<rparr> Unfinished))\<rparr>) (dirname ''data/'')
     = Some (Dir [(''a.txt'', File (file_attrs True) (Plain ''hello'')),
                  (''sub'', Dir [(''b.txt'', File (file_attrs True) (Plain ''bye''))])])
   \<and> write_walk (example_disk\<lparr>root := put_at (root example_disk) [''home'', ''u'', ''b.zip'']
                 (Some (File \<lparr>readable = True, mtime_year = 2024\<rparr> Unfinished))\<rparr>) ''data/''
        (os_walk (example_disk\<lparr>root := put_at (root example_disk) [''home'', ''u'', ''b.zip'']
                 (Some (File \<lparr>readable = True, mtime_year = 2024\<rparr> Unfinished))\<rparr>) ''data/'')
        \<lparr>zf_location = [''home'', ''u'', ''b.zip''], zf_entries = []\<rparr>
     = (None, \<lparr>zf_location = [''home'', ''u'', ''b.zip''],
               zf_entries = [(''a.txt'', Plain ''hello''), (''sub/b.txt'', Plain ''bye'')]\<rparr>)
   \<and> (\<exists>r post. stat (disk (snd (create_unencrypted_zip [''f.log'', ''data/'', ''nothing''] ''b.zip''
                                  (example_world example_disk)))) ''b.zip''
        = Some (File r (Archive ([(''f.log'', Plain ''log'')]
                                 @ [(''a.txt'', Plain ''hello''), (''sub/b.txt'', Plain ''bye'')] @ post))))"
proof -
  let ?zf = "\<lparr>zf_location = [''home'', ''u'', ''b.zip''], zf_entries = []\<rparr>"
  let ?zf1 = "\<lparr>zf_location = [''home'', ''u'', ''b.zip''], zf_entries = [(''f.log'', Plain ''log'')]\<rparr>"
  let ?fs1 = "example_disk\<lparr>root := put_at (root example_disk) [''home'', ''u'', ''b.zip'']
                 (Some (File \<lparr>readable = True, mtime_year = 2024\<rparr> Unfinished))\<rparr>"
  let ?ch = "[(''a.txt'', File (file_attrs True) (Plain ''hello'')),
              (''sub'', Dir [(''b.txt'', File (file_attrs True) (Plain ''bye''))])]"
  have op: "zip_open (disk (example_world example_disk)) ''b.zip'' = Returns (?zf, ?fs1)"
    by code_simp
  have wf: "wf_fs ?fs1" by code_simp
  have slash: "last ''data/'' = CHR ''/''" by simp
  have dir: "stat ?fs1 ''data/'' = Some (Dir ?ch)" by code_simp
  have before: "add_items ?fs1 [''f.log''] ?zf [] = (None, ?zf1, [Print (Msg_added_file ''f.log'')])"
    by code_simp
  have sto: "all_storable (Dir ?ch)" by (simp add: storable_def file_attrs_def)
  have es: "map (\<lambda>(rel, c). (join_sep rel, c)) (tree_files (Dir ?ch))
      = [(''a.txt'', Plain ''hello''), (''sub/b.txt'', Plain ''bye'')]"
    by code_simp
  note t = trailing_separator_drops_directory_name [OF wf slash dir, of ?zf
      "example_world example_disk" "''b.zip''" ?zf "[''f.log'']" ?zf1
      "[Print (Msg_added_file ''f.log'')]" "[''nothing'']"]
  from t have "dirname ''data/'' = (if rstrip_sep ''data/'' = [] then ''data/'' else rstrip_sep ''data/'')"
    by (rule conjunct1)
  then have d: "dirname ''data/'' = ''data''" by (simp add: rstrip_sep_def)
  from t have a: "stat ?fs1 (dirname ''data/'') = Some (Dir ?ch)" by blast
  from t sto have b: "write_walk ?fs1 ''data/'' (os_walk ?fs1 ''data/'') ?zf =
      (None, ?zf\<lparr>zf_entries := zf_entries ?zf
          @ map (\<lambda>(rel, c). (join_sep rel, c)) (tree_files (Dir ?ch))\<rparr>)"
    by auto
  from t op before sto have c: "\<exists>r post. stat (disk (snd (create_unencrypted_zip
        ([''f.log''] @ ''data/'' # [''nothing'']) ''b.zip'' (example_world example_disk)))) ''b.zip''
        = Some (File r (Archive (zf_entries ?zf1
            @ map (\<lambda>(rel, c). (join_sep rel, c)) (tree_files (Dir ?ch)) @ post)))"
    by auto
  from d a b c show ?thesis by (simp add: es)
qed

end
